theory Spec2Isabelle
  imports Complex_Main "HOL-Library.AList" "HOL-Library.Multiset"
begin

section \<open>The scraper of \<^verbatim>\<open>scrape.py\<close>\<close>

text \<open>
  The module fetches a batch of pages, some through the Tor SOCKS proxy, and returns a
  dictionary from link to extracted text. Everything outside the module is a parameter of
  the model: what a server does at each connection attempt, what the HTML and JSON parsers
  return, the order in which the futures of the thread pool complete, and what the
  caller's progress callback does. A Python \<^verbatim>\<open>str\<close> is a \<^typ>\<open>string\<close>, one list
  element per character, so \<^const>\<open>length\<close> is Python's \<^verbatim>\<open>len\<close>. A raise is the
  left injection of a sum. The log calls have no effect on any value and are left out.
\<close>

subsection \<open>Exceptions and the transport\<close>

text \<open>
  The subclasses of \<^verbatim>\<open>Exception\<close> that the module tells apart, and a name for every
  other one. \<^verbatim>\<open>KeyError\<close> is what a missing dictionary key raises.
\<close>

datatype exn =
  ConnectTimeout | ProxyError | KeyError | RetryError | TooManyRedirects | OtherException

text \<open>
  What a server does at one connection attempt: it answers with a status code, headers
  and a body, or the connection fails, or the read fails. A failure carries the exception
  that \<^verbatim>\<open>requests\<close> raises when no retry is left. Header names are in lower case, as
  the case-insensitive dictionary of the library finds them, and the value of
  \<open>location\<close> is the URL it leads to. An answer is what the adapter hands back; a
  response is the \<^verbatim>\<open>status_code\<close> and \<^verbatim>\<open>text\<close> the module reads.
\<close>

type_synonym headers = "(string \<times> string) list"

datatype attempt = Responds nat headers string | ConnectFails exn | ReadFails exn

type_synonym answer = "nat \<times> headers \<times> string"

type_synonym response = "nat \<times> string"

text \<open>The arguments of \<^verbatim>\<open>Retry(total, read, connect, backoff_factor, status_forcelist)\<close>.\<close>

record retry =
  r_total :: nat
  r_read :: nat
  r_connect :: nat
  backoff_factor :: rat
  status_forcelist :: "nat list"

record session =
  max_retries :: retry
  proxies :: "(string \<times> string) list"

text \<open>
  \<^verbatim>\<open>requests.Session()\<close> as the library builds it, and so what \<^verbatim>\<open>requests.get\<close>
  uses: no retry, no proxy.
\<close>

definition requests_Session :: session where
  "requests_Session =
     \<lparr>max_retries = \<lparr>r_total = 0, r_read = 0, r_connect = 0, backoff_factor = 0,
                      status_forcelist = []\<rparr>,
      proxies = []\<rparr>"

definition tor_proxies :: "(string \<times> string) list" where
  "tor_proxies =
     [(''http'', ''socks5h://127.0.0.1:9050''), (''https'', ''socks5h://127.0.0.1:9050'')]"

definition get_tor_session :: session where
  "get_tor_session =
     \<lparr>max_retries = \<lparr>r_total = 3, r_read = 3, r_connect = 3, backoff_factor = 3 / 10,
                      status_forcelist = [500, 502, 503, 504]\<rparr>,
      proxies = tor_proxies\<rparr>"

text \<open>
  \<^verbatim>\<open>Retry.is_retry\<close> for a GET: an answer is sent again when its status is in the
  force list, or when it carries a \<open>retry-after\<close> header that is not empty, its status
  is 413, 429 or 503, and the total of retries left is not zero.
\<close>

definition has_retry_after :: "headers \<Rightarrow> bool" where
  "has_retry_after hs =
     (case map_of hs ''retry-after'' of None \<Rightarrow> False | Some v \<Rightarrow> v \<noteq> [])"

definition is_retry :: "nat \<Rightarrow> nat list \<Rightarrow> nat \<Rightarrow> headers \<Rightarrow> bool" where
  "is_retry tot forced st hs =
     (st \<in> set forced \<or> (tot \<noteq> 0 \<and> has_retry_after hs \<and> st \<in> {413, 429, 503}))"

text \<open>
  The retry loop of the transport (\<^verbatim>\<open>urllib3\<close>), which the adapter mounted by
  \<^const>\<open>get_tor_session\<close> configures. Attempt \<open>k\<close> is made; an answer that
  \<^const>\<open>is_retry\<close> selects or a failure is retried while the total and the counter of
  its kind are positive, each retry using one of both. An answer to retry with no retry
  left raises \<^verbatim>\<open>RetryError\<close>; a failure with no retry left raises its own exception.
\<close>

fun send_retrying ::
  "nat \<Rightarrow> nat \<Rightarrow> nat \<Rightarrow> nat list \<Rightarrow> (nat \<Rightarrow> attempt) \<Rightarrow> nat \<Rightarrow> exn + answer" where
  "send_retrying 0 rd con forced srv k =
     (case srv k of
        Responds st hs body \<Rightarrow>
          if is_retry 0 forced st hs then Inl RetryError else Inr (st, hs, body)
      | ConnectFails e \<Rightarrow> Inl e
      | ReadFails e \<Rightarrow> Inl e)"
| "send_retrying (Suc tot) rd con forced srv k =
     (case srv k of
        Responds st hs body \<Rightarrow>
          if is_retry (Suc tot) forced st hs then send_retrying tot rd con forced srv (Suc k)
          else Inr (st, hs, body)
      | ConnectFails e \<Rightarrow>
          if con = 0 then Inl e else send_retrying tot rd (con - 1) forced srv (Suc k)
      | ReadFails e \<Rightarrow>
          if rd = 0 then Inl e else send_retrying tot (rd - 1) con forced srv (Suc k))"

text \<open>
  The redirects that \<^verbatim>\<open>requests\<close> follows for a GET: an answer with one of the five
  redirect statuses and a \<open>location\<close> that is not empty leads to that URL, where a new
  request is sent through the same adapter. Thirty redirects are followed; one more
  raises \<^verbatim>\<open>TooManyRedirects\<close>.
\<close>

definition redirect_target :: "answer \<Rightarrow> string option" where
  "redirect_target a =
     (case a of (st, hs, body) \<Rightarrow>
        if st \<in> {301, 302, 303, 307, 308} then
          (case map_of hs ''location'' of
             None \<Rightarrow> None
           | Some url \<Rightarrow> if url = [] then None else Some url)
        else None)"

fun resolve_redirects :: "nat \<Rightarrow> (string \<Rightarrow> exn + answer) \<Rightarrow> string \<Rightarrow> exn + response" where
  "resolve_redirects 0 send url =
     (case send url of
        Inl e \<Rightarrow> Inl e
      | Inr a \<Rightarrow>
          (case redirect_target a of
             None \<Rightarrow> Inr (fst a, snd (snd a))
           | Some target \<Rightarrow> Inl TooManyRedirects))"
| "resolve_redirects (Suc n) send url =
     (case send url of
        Inl e \<Rightarrow> Inl e
      | Inr a \<Rightarrow>
          (case redirect_target a of
             None \<Rightarrow> Inr (fst a, snd (snd a))
           | Some target \<Rightarrow> resolve_redirects n send target))"

definition max_redirects :: nat where
  "max_redirects = 30"

text \<open>
  The world one request sees: the server reached through the given proxies at the given
  URL, attempt by attempt, and the two parsers of third-party libraries. A parsed page is
  a list of nodes: a string with the class the parser gave it, or a tag with its name and
  children.
\<close>

datatype string_class =
  NavigableString | CData | Comment | Declaration | Doctype | ProcessingInstruction
  | Script | Stylesheet | TemplateString | RubyTextString | RubyParenthesisString

datatype node = PageString string_class string | Tag string "node list"

datatype json =
  JObject "(string \<times> json) list" | JArray "json list" | JString string
  | JNumber int | JBool bool | JNull

record world =
  server :: "(string \<times> string) list \<Rightarrow> string \<Rightarrow> nat \<Rightarrow> attempt"
  html_parser :: "string \<Rightarrow> exn + node list"
  json_loads :: "string \<Rightarrow> exn + json"

text \<open>
  One request through the adapter of a session, with its retries, and
  \<^verbatim>\<open>session.get\<close>, which follows the redirects.
\<close>

definition adapter_send :: "world \<Rightarrow> session \<Rightarrow> string \<Rightarrow> exn + answer" where
  "adapter_send w s url =
     (let r = max_retries s
      in send_retrying (r_total r) (r_read r) (r_connect r) (status_forcelist r)
           (server w (proxies s) url) 0)"

definition session_get :: "world \<Rightarrow> session \<Rightarrow> string \<Rightarrow> exn + response" where
  "session_get w s url = resolve_redirects max_redirects (adapter_send w s) url"

definition requests_get :: "world \<Rightarrow> string \<Rightarrow> exn + response" where
  "requests_get w url = session_get w requests_Session url"

subsection \<open>Strings and the parsed page\<close>

text \<open>\<^verbatim>\<open>needle in s\<close> on strings.\<close>

fun str_contains :: "string \<Rightarrow> string \<Rightarrow> bool" where
  "str_contains needle [] = (needle = [])"
| "str_contains needle (c # cs) =
     (take (length needle) (c # cs) = needle \<or> str_contains needle cs)"

text \<open>
  \<^verbatim>\<open>str.isspace\<close> on the characters a \<^typ>\<open>char\<close> can hold: tab to carriage return,
  the four separators 28 to 31, the space, and 133 and 160.
\<close>

definition isspace :: "char \<Rightarrow> bool" where
  "isspace c = ((of_char c :: nat) \<in> {9, 10, 11, 12, 13, 28, 29, 30, 31, 32, 133, 160})"

text \<open>\<^verbatim>\<open>s.split()\<close>: the maximal runs of characters that are not whitespace.\<close>

fun split_from :: "string \<Rightarrow> string \<Rightarrow> string list" where
  "split_from word [] = (if word = [] then [] else [word])"
| "split_from word (c # cs) =
     (if isspace c then (if word = [] then split_from [] cs else word # split_from [] cs)
      else split_from (word @ [c]) cs)"

definition str_split :: "string \<Rightarrow> string list" where
  "str_split s = split_from [] s"

text \<open>\<^verbatim>\<open>sep.join(parts)\<close>.\<close>

fun str_join :: "string \<Rightarrow> string list \<Rightarrow> string" where
  "str_join sep [] = []"
| "str_join sep [x] = x"
| "str_join sep (x # y # ys) = x @ sep @ str_join sep (y # ys)"

text \<open>
  \<^verbatim>\<open>for script in soup(names): script.extract()\<close> removes every tag with one of the
  names, at any depth, with all it contains.
\<close>

fun extract_tags :: "string list \<Rightarrow> node \<Rightarrow> node list" where
  "extract_tags names (PageString cls s) = [PageString cls s]"
| "extract_tags names (Tag n children) =
     (if n \<in> set names then [] else [Tag n (concat (map (extract_tags names) children))])"

text \<open>
  \<^verbatim>\<open>soup.get_text(separator)\<close> joins the strings of the page whose class is exactly
  \<^verbatim>\<open>NavigableString\<close> or \<^verbatim>\<open>CData\<close>; comments, the doctype, declarations and the
  strings the parser gave a class of their own are left out.
\<close>

fun all_strings :: "node \<Rightarrow> string list" where
  "all_strings (PageString cls s) = (if cls = NavigableString \<or> cls = CData then [s] else [])"
| "all_strings (Tag n children) = concat (map all_strings children)"

definition get_text :: "string \<Rightarrow> node list \<Rightarrow> string" where
  "get_text separator soup = str_join separator (concat (map all_strings soup))"

subsection \<open>\<^verbatim>\<open>check_tor_connection\<close>\<close>

text \<open>
  The body of the \<^verbatim>\<open>try\<close>: \<open>Inr True\<close> is the \<^verbatim>\<open>return True\<close>, \<open>Inr False\<close> is
  falling out of the \<^verbatim>\<open>if\<close>. \<^verbatim>\<open>data.get\<close> exists on a dictionary only; on any other
  JSON value the attribute lookup raises.
\<close>

definition check_tor_connection_try :: "world \<Rightarrow> exn + bool" where
  "check_tor_connection_try w =
     (case session_get w (requests_Session\<lparr>proxies := tor_proxies\<rparr>)
             ''https://check.torproject.org/api/ip'' of
        Inl e \<Rightarrow> Inl e
      | Inr (status_code, body) \<Rightarrow>
          if status_code = 200 then
            (case json_loads w body of
               Inl e \<Rightarrow> Inl e
             | Inr (JObject kvs) \<Rightarrow> Inr True
             | Inr _ \<Rightarrow> Inl OtherException)
          else Inr False)"

definition check_tor_connection :: "world \<Rightarrow> exn + bool" where
  "check_tor_connection w =
     (case check_tor_connection_try w of
        Inr True \<Rightarrow> Inr True
      | Inr False \<Rightarrow> Inr False
      | Inl e \<Rightarrow> Inr False)"

subsection \<open>\<^verbatim>\<open>scrape_single\<close>\<close>

type_synonym url_data = "string \<rightharpoonup> string"

text \<open>\<^verbatim>\<open>d[key]\<close> and \<^verbatim>\<open>d.get(key, default)\<close>.\<close>

definition getitem :: "url_data \<Rightarrow> string \<Rightarrow> exn + string" where
  "getitem d key = (case d key of None \<Rightarrow> Inl KeyError | Some v \<Rightarrow> Inr v)"

definition dict_get :: "url_data \<Rightarrow> string \<Rightarrow> string \<Rightarrow> string" where
  "dict_get d key dflt = (case d key of None \<Rightarrow> dflt | Some v \<Rightarrow> v)"

text \<open>
  The request of \<^verbatim>\<open>scrape_single\<close>: a new Tor session for an onion link, a plain
  \<^verbatim>\<open>requests.get\<close> otherwise. The body of the \<^verbatim>\<open>try\<close> follows, which leaves
  \<^verbatim>\<open>scraped_text\<close>.
\<close>

text \<open>
  The text of a parsed page: the script and style tags are taken out, the strings that
  \<^verbatim>\<open>get_text\<close> yields from what is left are joined by a space, and the whitespace
  is normalised by \<^verbatim>\<open>' '.join(text.split())\<close>.
\<close>

definition page_text :: "node list \<Rightarrow> string" where
  "page_text soup =
     (let soup' = concat (map (extract_tags [''script'', ''style'']) soup);
          text = get_text '' '' soup'
      in str_join '' '' (str_split text))"

definition http_get :: "world \<Rightarrow> string \<Rightarrow> bool \<Rightarrow> exn + response" where
  "http_get w url use_tor =
     (if use_tor then session_get w get_tor_session url else requests_get w url)"

definition scrape_single_try :: "world \<Rightarrow> url_data \<Rightarrow> string \<Rightarrow> bool \<Rightarrow> exn + string" where
  "scrape_single_try w url_data url use_tor =
     (case http_get w url use_tor of
        Inl e \<Rightarrow> Inl e
      | Inr (status_code, response_text) \<Rightarrow>
          if status_code = 200 then
            (case html_parser w response_text of
               Inl e \<Rightarrow> Inl e
             | Inr soup \<Rightarrow>
                 (let text = page_text soup
                  in case getitem url_data ''title'' of
                       Inl e \<Rightarrow> Inl e
                     | Inr title \<Rightarrow> Inr (title @ '' - '' @ text)))
          else getitem url_data ''title'')"

definition scrape_single :: "world \<Rightarrow> url_data \<Rightarrow> exn + (string \<times> string)" where
  "scrape_single w url_data =
     (case getitem url_data ''link'' of
        Inl e \<Rightarrow> Inl e
      | Inr url \<Rightarrow>
          (let use_tor = str_contains ''.onion'' url;
               scraped_text =
                 (case scrape_single_try w url_data url use_tor of
                    Inr t \<Rightarrow> Inr t
                  | Inl ConnectTimeout \<Rightarrow> getitem url_data ''title''
                  | Inl ProxyError \<Rightarrow> getitem url_data ''title''
                  | Inl e \<Rightarrow> getitem url_data ''title'')
           in case scraped_text of Inl e \<Rightarrow> Inl e | Inr t \<Rightarrow> Inr (url, t)))"

subsection \<open>\<^verbatim>\<open>scrape_multiple\<close>\<close>

text \<open>
  An event is one call of the progress callback, with its four arguments. The callback is
  the caller's: given the calls made so far and the present one, it returns or raises.
\<close>

type_synonym event = "string \<times> string \<times> nat \<times> nat"

type_synonym callback = "event list \<Rightarrow> event \<Rightarrow> exn option"

type_synonym future = "url_data \<times> (exn + string \<times> string)"

record state =
  results :: "(string \<times> string) list"
  success_count :: nat
  fail_count :: nat
  completed :: nat
  events :: "event list"

text \<open>
  The environment of a batch: the world the probe sees, the world the fetch of the
  \<open>i\<close>-th task sees, and the order in which \<^verbatim>\<open>as_completed\<close> yields the futures.
\<close>

record env =
  probe_world :: world
  task_world :: "nat \<Rightarrow> world"
  as_completed :: "future list \<Rightarrow> future list"

definition max_chars :: nat where
  "max_chars = 2000"

definition truncation_marker :: string where
  "truncation_marker = ''...(truncated)''"

text \<open>\<^verbatim>\<open>if len(content) > max_chars: content = content[:max_chars] + "...(truncated)"\<close>.\<close>

definition truncate_content :: "string \<Rightarrow> string" where
  "truncate_content content =
     (if length content > max_chars then take max_chars content @ truncation_marker
      else content)"

text \<open>
  \<^verbatim>\<open>if progress_callback: progress_callback(...)\<close>: the call is recorded, and the
  exception it raised, if any, is returned with the state.
\<close>

definition call_progress :: "callback option \<Rightarrow> event \<Rightarrow> state \<Rightarrow> exn option \<times> state" where
  "call_progress progress_callback ev st =
     (case progress_callback of
        None \<Rightarrow> (None, st)
      | Some f \<Rightarrow> (f (events st) ev, st\<lparr>events := events st @ [ev]\<rparr>))"

text \<open>The \<^verbatim>\<open>except Exception\<close> of the loop; a raise of the callback here propagates.\<close>

definition future_failed ::
  "callback option \<Rightarrow> nat \<Rightarrow> string \<Rightarrow> state \<Rightarrow> exn option \<times> state" where
  "future_failed progress_callback total_urls url st =
     (let st1 = st\<lparr>completed := completed st + 1\<rparr>;
          st2 = st1\<lparr>fail_count := fail_count st1 + 1\<rparr>
      in call_progress progress_callback (url, ''error'', completed st2, total_urls) st2)"

text \<open>One round of the loop over the completed futures.\<close>

definition process_future ::
  "callback option \<Rightarrow> nat \<Rightarrow> future \<Rightarrow> state \<Rightarrow> exn option \<times> state" where
  "process_future progress_callback total_urls fut st =
     (let url_data = fst fut;
          url = dict_get url_data ''link'' ''unknown''
      in case snd fut of
           Inl e \<Rightarrow> future_failed progress_callback total_urls url st
         | Inr (result_url, content) \<Rightarrow>
             (let content' = truncate_content content;
                  st1 = st\<lparr>results := AList.update result_url content' (results st)\<rparr>;
                  st2 = st1\<lparr>completed := completed st1 + 1\<rparr>;
                  success = (length content' > length (dict_get url_data ''title'' '''') + 10);
                  st3 = (if success then st2\<lparr>success_count := success_count st2 + 1\<rparr>
                         else st2\<lparr>fail_count := fail_count st2 + 1\<rparr>);
                  status = (if success then ''success'' else ''failed'')
              in case call_progress progress_callback
                        (url, status, completed st3, total_urls) st3 of
                   (None, st4) \<Rightarrow> (None, st4)
                 | (Some e, st4) \<Rightarrow> future_failed progress_callback total_urls url st4))"

fun run_loop ::
  "callback option \<Rightarrow> nat \<Rightarrow> future list \<Rightarrow> state \<Rightarrow> exn option \<times> state" where
  "run_loop progress_callback total_urls [] st = (None, st)"
| "run_loop progress_callback total_urls (fut # futs) st =
     (case process_future progress_callback total_urls fut st of
        (None, st') \<Rightarrow> run_loop progress_callback total_urls futs st'
      | (Some e, st') \<Rightarrow> (Some e, st'))"

text \<open>
  The check before the pool is started. \<^const>\<open>check_tor_connection\<close> catches what it
  raises, so its left case is never taken; the calls of the callback are outside any
  \<^verbatim>\<open>try\<close>.
\<close>

definition tor_precheck ::
  "world \<Rightarrow> callback option \<Rightarrow> url_data list \<Rightarrow> state \<Rightarrow> exn option \<times> state" where
  "tor_precheck w progress_callback urls_data st =
     (let total_urls = length urls_data;
          has_onion = (\<exists>url_data \<in> set urls_data.
                         str_contains ''.onion'' (dict_get url_data ''link'' ''''))
      in if has_onion then
           (case call_progress progress_callback
                   (''Checking Tor connection...'', ''checking'', 0, total_urls) st of
              (Some e, st1) \<Rightarrow> (Some e, st1)
            | (None, st1) \<Rightarrow>
                (case check_tor_connection w of
                   Inl e \<Rightarrow> (Some e, st1)
                 | Inr tor_ok \<Rightarrow>
                     if \<not> tor_ok then
                       call_progress progress_callback
                         (''Tor NOT running!'', ''error'', 0, total_urls) st1
                     else (None, st1)))
         else (None, st))"

text \<open>
  The futures in the order of submission: the \<open>i\<close>-th is the task and what
  \<^const>\<open>scrape_single\<close> returns or raises for it. The fetches share no state, so each
  is a function of its task and its world; the size of the pool decides how many run at a
  time and nothing else. A failure to start a worker is not modelled.
\<close>

definition submit_all :: "env \<Rightarrow> url_data list \<Rightarrow> future list" where
  "submit_all en urls_data =
     map (\<lambda>i. (urls_data ! i, scrape_single (task_world en i) (urls_data ! i)))
       [0..<length urls_data]"

definition init_state :: state where
  "init_state = \<lparr>results = [], success_count = 0, fail_count = 0, completed = 0, events = []\<rparr>"

text \<open>
  The value of a run: the dictionary returned or the exception raised, and the calls of
  the callback that were made.
\<close>

definition scrape_multiple ::
  "env \<Rightarrow> url_data list \<Rightarrow> callback option \<Rightarrow> (exn + (string \<times> string) list) \<times> event list" where
  "scrape_multiple en urls_data progress_callback =
     (let total_urls = length urls_data
      in case tor_precheck (probe_world en) progress_callback urls_data init_state of
           (Some e, st) \<Rightarrow> (Inl e, events st)
         | (None, st) \<Rightarrow>
             (case run_loop progress_callback total_urls
                     (as_completed en (submit_all en urls_data)) st of
                (Some e, st') \<Rightarrow> (Inl e, events st')
              | (None, st') \<Rightarrow> (Inr (results st'), events st')))"

subsection \<open>Notions used to state the properties\<close>

text \<open>A task with both keys, as the caller is asked to pass it.\<close>

definition well_formed :: "url_data \<Rightarrow> bool" where
  "well_formed d = (d ''link'' \<noteq> None \<and> d ''title'' \<noteq> None)"

text \<open>A callback that returns at every call, and a completion order that is a permutation.\<close>

definition never_raises :: "callback option \<Rightarrow> bool" where
  "never_raises cb = (case cb of None \<Rightarrow> True | Some f \<Rightarrow> \<forall>h ev. f h ev = None)"

definition completion_order :: "env \<Rightarrow> bool" where
  "completion_order en = (\<forall>futs. mset (as_completed en futs) = mset futs)"

text \<open>What one round of the loop writes into \<^verbatim>\<open>results\<close>.\<close>

definition store_future :: "future \<Rightarrow> (string \<times> string) list \<Rightarrow> (string \<times> string) list" where
  "store_future fut res =
     (case snd fut of
        Inl e \<Rightarrow> res
      | Inr (u, c) \<Rightarrow> AList.update u (truncate_content c) res)"

text \<open>The status of a completed future, and the call a callback that returns receives for it.\<close>

definition task_status :: "future \<Rightarrow> string" where
  "task_status fut =
     (case snd fut of
        Inl e \<Rightarrow> ''error''
      | Inr (u, c) \<Rightarrow>
          if length (truncate_content c) > length (dict_get (fst fut) ''title'' '''') + 10
          then ''success'' else ''failed'')"

definition task_event :: "nat \<Rightarrow> nat \<times> future \<Rightarrow> event" where
  "task_event total_urls kf =
     (dict_get (fst (snd kf)) ''link'' ''unknown'', task_status (snd kf), Suc (fst kf), total_urls)"

text \<open>The calls made before the pool is started, when the callback is there and returns.\<close>

definition precheck_events :: "world \<Rightarrow> url_data list \<Rightarrow> event list" where
  "precheck_events w urls_data =
     (if \<exists>url_data \<in> set urls_data. str_contains ''.onion'' (dict_get url_data ''link'' '''')
      then (''Checking Tor connection...'', ''checking'', 0, length urls_data) #
           (if check_tor_connection w = Inr True then []
            else [(''Tor NOT running!'', ''error'', 0, length urls_data)])
      else [])"

text \<open>The task \<^verbatim>\<open>{'link': l, 'title': t}\<close>.\<close>

definition task :: "string \<Rightarrow> string \<Rightarrow> url_data" where
  "task l t = [''link'' \<mapsto> l, ''title'' \<mapsto> t]"

text \<open>
  The fetch of a link succeeds when the request returns status 200 and the parser returns
  a page; in every other case \<^const>\<open>scrape_single\<close> is in a failure branch.
\<close>

definition fetch_succeeds :: "world \<Rightarrow> string \<Rightarrow> bool" where
  "fetch_succeeds w url =
     (case http_get w url (str_contains ''.onion'' url) of
        Inl e \<Rightarrow> False
      | Inr (status_code, body) \<Rightarrow>
          status_code = 200 \<and> (case html_parser w body of Inl e \<Rightarrow> False | Inr soup \<Rightarrow> True))"

text \<open>
  A callback that may raise when it is told of a success or a failure, and returns at
  every call with phase checking or error.
\<close>

definition returns_on_checking_and_error :: "callback \<Rightarrow> bool" where
  "returns_on_checking_and_error f =
     (\<forall>h label n m. f h (label, ''checking'', n, m) = None \<and> f h (label, ''error'', n, m) = None)"


text \<open>
  A reply of the check service that confirms the exit through Tor: an object whose
  \<open>IsTor\<close> is true. The code reads this flag for the log only.
\<close>

definition confirms_tor_egress :: "json \<Rightarrow> bool" where
  "confirms_tor_egress data =
     (case data of JObject kvs \<Rightarrow> map_of kvs ''IsTor'' = Some (JBool True) | _ \<Rightarrow> False)"


text \<open>
  The trace of a run is the list of the calls of the callback. What the callback did at
  the \<open>k\<close>-th call is what it does with the calls before it and the call itself. A raise
  at a call is caught when the call reports a success or a failure and the next call has
  the same label and phase error; it has propagated when the call has phase checking or
  error and is the last of the trace.
\<close>

definition phase :: "event \<Rightarrow> string" where
  "phase ev = fst (snd ev)"

definition raised_at :: "callback \<Rightarrow> event list \<Rightarrow> nat \<Rightarrow> exn option" where
  "raised_at f evs k = f (take k evs) (evs ! k)"

definition caught_at :: "nat \<Rightarrow> event list \<Rightarrow> nat \<Rightarrow> bool" where
  "caught_at total_urls evs k =
     (phase (evs ! k) \<in> {''success'', ''failed''} \<and> Suc k < length evs \<and>
      (\<exists>n. evs ! Suc k = (fst (evs ! k), ''error'', n, total_urls)))"

definition propagated_at :: "event list \<Rightarrow> nat \<Rightarrow> bool" where
  "propagated_at evs k = (phase (evs ! k) \<in> {''checking'', ''error''} \<and> Suc k = length evs)"

text \<open>
  Every raise of a trace is caught, but for the last call when the run ended with an
  exception, which is then the one that call raised.
\<close>

definition raises_handled :: "callback \<Rightarrow> nat \<Rightarrow> event list \<Rightarrow> exn option \<Rightarrow> bool" where
  "raises_handled f total_urls evs r =
     ((\<forall>k < length evs. \<forall>e. raised_at f evs k = Some e \<longrightarrow>
          caught_at total_urls evs k \<or> (propagated_at evs k \<and> r = Some e)) \<and>
      (\<forall>e. r = Some e \<longrightarrow>
          evs \<noteq> [] \<and> raised_at f evs (length evs - 1) = Some e \<and>
          propagated_at evs (length evs - 1)))"

subsection \<open>Concrete worlds\<close>

text \<open>
  A world in which every connection times out and no parser succeeds, and the environment
  that shows one world to the probe and to every task and yields the futures in the
  reverse of the order of submission.
\<close>

definition unreachable_world :: world where
  "unreachable_world =
     \<lparr>server = (\<lambda>p u k. ConnectFails ConnectTimeout),
      html_parser = (\<lambda>b. Inl OtherException),
      json_loads = (\<lambda>b. Inl OtherException)\<rparr>"

definition uniform_env :: "world \<Rightarrow> env" where
  "uniform_env w = \<lparr>probe_world = w, task_world = (\<lambda>i. w), as_completed = rev\<rparr>"

text \<open>
  The page of scenario A as the parser returns it, and a world in which every server
  answers 200 with that page. A world in which every server answers 200 with an empty
  page.
\<close>

definition scenario_A_body :: string where
  "scenario_A_body = ''<html><body><script>x</script>Hello World</body></html>''"

definition scenario_A_soup :: "node list" where
  "scenario_A_soup =
     [Tag ''html'' [Tag ''body'' [Tag ''script'' [PageString Script ''x''],
                                  PageString NavigableString ''Hello World'']]]"

definition scenario_A_world :: world where
  "scenario_A_world =
     \<lparr>server = (\<lambda>p u k. Responds 200 [] scenario_A_body),
      html_parser = (\<lambda>b. if b = scenario_A_body then Inr scenario_A_soup
                          else Inl OtherException),
      json_loads = (\<lambda>b. Inl OtherException)\<rparr>"


text \<open>The probe reaches nothing while every task is served the page of scenario A.\<close>

definition probe_down_env :: env where
  "probe_down_env = (uniform_env scenario_A_world)\<lparr>probe_world := unreachable_world\<rparr>"

text \<open>
  A world whose check service answers 200 with an object that says the exit is not Tor,
  and the world of scenario D: every server answers 503 three times and then 200 with
  the page of scenario A.
\<close>

definition exit_not_tor_world :: world where
  "exit_not_tor_world =
     \<lparr>server = (\<lambda>p u k. Responds 200 [] ''reply''),
      html_parser = (\<lambda>b. Inl OtherException),
      json_loads = (\<lambda>b. Inr (JObject [(''IP'', JString ''203.0.113.7''),
                                        (''IsTor'', JBool False)]))\<rparr>"


section \<open>Properties of the model\<close>

subsection \<open>What the loop stores\<close>

lemma results_call_progress: "results (snd (call_progress cb ev st)) = results st"
  by (simp add: call_progress_def split: option.splits)

lemma results_future_failed: "results (snd (future_failed cb n url st)) = results st"
  by (simp add: future_failed_def Let_def results_call_progress)

lemma results_process_future:
  "results (snd (process_future cb n fut st)) = store_future fut (results st)"
  by (auto simp: process_future_def store_future_def Let_def results_call_progress
      results_future_failed call_progress_def future_failed_def
      split: sum.splits prod.splits option.splits)

lemma results_run_loop:
  "run_loop cb n futs st = (None, st') \<Longrightarrow> results st' = fold store_future futs (results st)"
proof (induction futs arbitrary: st)
  case Nil
  then show ?case by simp
next
  case (Cons fut futs)
  obtain r st1 where p: "process_future cb n fut st = (r, st1)"
    by (cases "process_future cb n fut st")
  with Cons.prems have r: "r = None" and l: "run_loop cb n futs st1 = (None, st')"
    by (auto split: option.splits)
  have "results st1 = store_future fut (results st)"
    using results_process_future [of cb n fut st] p by simp
  with Cons.IH [OF l] show ?case by simp
qed

lemma keys_store_future:
  "fst ` set (store_future fut res) =
     fst ` set res \<union> {u. \<exists>c. snd fut = Inr (u, c)}"
  by (auto simp: store_future_def dom_update split: sum.splits)

lemma keys_fold_store:
  "fst ` set (fold store_future futs res) =
     fst ` set res \<union> {u. \<exists>d c. (d, Inr (u, c)) \<in> set futs}"
proof (induction futs arbitrary: res)
  case Nil
  then show ?case by simp
next
  case (Cons fut futs)
  have "{u. \<exists>d c. (d, Inr (u, c)) \<in> set (fut # futs)} =
        {u. \<exists>c. snd fut = Inr (u, c)} \<union> {u. \<exists>d c. (d, Inr (u, c)) \<in> set futs}"
    by (cases fut) auto
  then show ?case
    by (simp add: Cons.IH keys_store_future Un_assoc)
qed

lemma distinct_store_future:
  "distinct (map fst res) \<Longrightarrow> distinct (map fst (store_future fut res))"
  by (auto simp: store_future_def distinct_update split: sum.splits)

lemma distinct_fold_store:
  "distinct (map fst res) \<Longrightarrow> distinct (map fst (fold store_future futs res))"
  by (induction futs arbitrary: res) (simp_all add: distinct_store_future)

lemma in_set_updateD:
  "(u, v) \<in> set (AList.update k x al) \<Longrightarrow> (u, v) \<in> set al \<or> (u = k \<and> v = x)"
  by (induction al) (auto split: if_splits)

lemma values_store_future:
  "(u, v) \<in> set (store_future fut res) \<Longrightarrow>
     (u, v) \<in> set res \<or> (\<exists>c. snd fut = Inr (u, c) \<and> v = truncate_content c)"
  by (auto simp: store_future_def split: sum.splits dest: in_set_updateD)

lemma values_fold_store:
  "(u, v) \<in> set (fold store_future futs res) \<Longrightarrow>
     (u, v) \<in> set res \<or> (\<exists>d c. (d, Inr (u, c)) \<in> set futs \<and> v = truncate_content c)"
proof (induction futs arbitrary: res)
  case Nil
  then show ?case by simp
next
  case (Cons fut futs)
  from Cons.IH [of "store_future fut res"] Cons.prems
  consider "(u, v) \<in> set (store_future fut res)"
    | "\<exists>d c. (d, Inr (u, c)) \<in> set futs \<and> v = truncate_content c"
    by auto
  then show ?case
  proof cases
    case 1
    from values_store_future [OF 1] show ?thesis
      by (cases fut) auto
  next
    case 2
    then show ?thesis by auto
  qed
qed

lemma map_of_store_other:
  "\<forall>c. snd fut \<noteq> Inr (u, c) \<Longrightarrow> map_of (store_future fut res) u = map_of res u"
  by (auto simp: store_future_def update_conv' split: sum.splits)

lemma map_of_fold_store_other:
  "\<forall>d c. (d, Inr (u, c)) \<notin> set futs \<Longrightarrow> map_of (fold store_future futs res) u = map_of res u"
proof (induction futs arbitrary: res)
  case Nil
  then show ?case by simp
next
  case (Cons fut futs)
  have a: "\<forall>c. snd fut \<noteq> Inr (u, c)"
    using Cons.prems by (cases fut) auto
  have b: "\<forall>d c. (d, Inr (u, c)) \<notin> set futs"
    using Cons.prems by auto
  show ?case
    by (simp add: Cons.IH [OF b] map_of_store_other [OF a])
qed

lemma map_of_fold_store_same:
  assumes "\<forall>d c'. (d, Inr (u, c')) \<in> set futs \<longrightarrow> c' = c"
    and "(\<exists>d. (d, Inr (u, c)) \<in> set futs) \<or> map_of res u = Some (truncate_content c)"
  shows "map_of (fold store_future futs res) u = Some (truncate_content c)"
  using assms
proof (induction futs arbitrary: res)
  case Nil
  then show ?case by simp
next
  case (Cons fut futs)
  have same: "\<forall>d c'. (d, Inr (u, c')) \<in> set futs \<longrightarrow> c' = c"
    using Cons.prems(1) by auto
  have "(\<exists>d. (d, Inr (u, c)) \<in> set futs) \<or>
        map_of (store_future fut res) u = Some (truncate_content c)"
  proof (cases "\<exists>c'. snd fut = Inr (u, c')")
    case True
    then obtain c' where f: "snd fut = Inr (u, c')" by blast
    then have "(fst fut, Inr (u, c')) \<in> set (fut # futs)"
      by (cases fut) simp
    with Cons.prems(1) have "c' = c" by blast
    with f show ?thesis
      by (simp add: store_future_def update_conv')
  next
    case False
    then have "map_of (store_future fut res) u = map_of res u"
      by (simp add: map_of_store_other)
    moreover have "\<forall>d. fut \<noteq> (d, Inr (u, c))"
      using False by auto
    ultimately show ?thesis
      using Cons.prems(2) by auto
  qed
  from Cons.IH [OF same this] show ?case by simp
qed

subsection \<open>A callback that returns\<close>

lemma call_progress_returns:
  "never_raises cb \<Longrightarrow>
   call_progress cb ev st =
     (None, st\<lparr>events := events st @ (case cb of None \<Rightarrow> [] | Some f \<Rightarrow> [ev])\<rparr>)"
  by (cases cb) (simp_all add: call_progress_def never_raises_def del: split_paired_All)

lemma process_future_returns:
  assumes "never_raises cb"
  shows "\<exists>st'. process_future cb n fut st = (None, st') \<and>
           completed st' = Suc (completed st) \<and>
           events st' = events st @
             (case cb of None \<Rightarrow> [] | Some f \<Rightarrow> [task_event n (completed st, fut)])"
proof (cases "snd fut")
  case (Inl e)
  then show ?thesis
    by (simp add: process_future_def future_failed_def Let_def call_progress_returns [OF assms]
        task_event_def task_status_def split: option.splits)
next
  case (Inr uc)
  obtain u c where "uc = (u, c)" by (cases uc)
  with Inr show ?thesis
    by (simp add: process_future_def Let_def call_progress_returns [OF assms]
        task_event_def task_status_def split: option.splits)
qed

lemma run_loop_returns:
  assumes "never_raises cb"
  shows "\<exists>st'. run_loop cb n futs st = (None, st') \<and>
           completed st' = completed st + length futs \<and>
           events st' = events st @
             (case cb of None \<Rightarrow> []
              | Some f \<Rightarrow> map (task_event n) (enumerate (completed st) futs))"
proof (induction futs arbitrary: st)
  case Nil
  then show ?case by (simp split: option.splits)
next
  case (Cons fut futs)
  from process_future_returns [OF assms, of n fut st]
  obtain st1 where p: "process_future cb n fut st = (None, st1)"
    and c: "completed st1 = Suc (completed st)"
    and e: "events st1 = events st @
             (case cb of None \<Rightarrow> [] | Some f \<Rightarrow> [task_event n (completed st, fut)])"
    by blast
  from Cons.IH [of st1]
  obtain st' where l: "run_loop cb n futs st1 = (None, st')"
    and c': "completed st' = completed st1 + length futs"
    and e': "events st' = events st1 @
             (case cb of None \<Rightarrow> []
              | Some f \<Rightarrow> map (task_event n) (enumerate (completed st1) futs))"
    by blast
  show ?case
    using p l c c' e e' by (simp split: option.splits)
qed

subsection \<open>The check and the whole run\<close>

lemma check_tor_connection_returns: "\<exists>b. check_tor_connection w = Inr b"
  by (auto simp: check_tor_connection_def split: sum.splits bool.splits)

lemma tor_precheck_keeps:
  "tor_precheck w cb ds st = (r, st') \<Longrightarrow>
     results st' = results st \<and> completed st' = completed st"
  by (auto simp: tor_precheck_def Let_def call_progress_def
      split: if_splits option.splits sum.splits prod.splits)

lemma scrape_multiple_results:
  assumes "fst (scrape_multiple en ds cb) = Inr res"
  shows "res = fold store_future (as_completed en (submit_all en ds)) []"
proof -
  obtain r st where p: "tor_precheck (probe_world en) cb ds init_state = (r, st)"
    by (cases "tor_precheck (probe_world en) cb ds init_state")
  obtain r' st' where l:
    "run_loop cb (length ds) (as_completed en (submit_all en ds)) st = (r', st')"
    by (cases "run_loop cb (length ds) (as_completed en (submit_all en ds)) st")
  from assms p l have "r = None" "r' = None" "res = results st'"
    by (auto simp: scrape_multiple_def Let_def split: option.splits)
  moreover have "results st = []"
    using tor_precheck_keeps [OF p] by (simp add: init_state_def)
  ultimately show ?thesis
    using results_run_loop [of cb "length ds" _ st st'] l by simp
qed

lemma set_as_completed:
  "completion_order en \<Longrightarrow> set (as_completed en futs) = set futs"
  by (metis completion_order_def set_mset_mset)

lemma length_as_completed:
  "completion_order en \<Longrightarrow> length (as_completed en futs) = length futs"
  by (metis completion_order_def size_mset)

lemma in_submit_all:
  "fut \<in> set (submit_all en ds) \<longleftrightarrow>
     (\<exists>i < length ds. fut = (ds ! i, scrape_single (task_world en i) (ds ! i)))"
  by (auto simp: submit_all_def)

lemma length_truncate_content:
  "length (truncate_content c) \<le> max_chars + length truncation_marker"
  by (simp add: truncate_content_def)

lemma completion_order_uniform: "completion_order (uniform_env w)"
  by (simp add: completion_order_def uniform_env_def)

lemma resolve_redirects_numeral:
  "resolve_redirects (numeral k) send url =
     (case send url of
        Inl e \<Rightarrow> Inl e
      | Inr a \<Rightarrow>
          (case redirect_target a of
             None \<Rightarrow> Inr (fst a, snd (snd a))
           | Some target \<Rightarrow> resolve_redirects (pred_numeral k) send target))"
  by (simp add: numeral_eq_Suc)

text \<open>The equations that evaluate a run on a concrete input.\<close>

lemmas run_defs =
  scrape_multiple_def tor_precheck_def dict_get_def init_state_def submit_all_def
  process_future_def call_progress_def truncate_content_def max_chars_def future_failed_def
  scrape_single_def scrape_single_try_def getitem_def requests_get_def session_get_def
  requests_Session_def get_tor_session_def tor_proxies_def http_get_def page_text_def
  get_text_def str_split_def isspace_def check_tor_connection_def
  check_tor_connection_try_def truncation_marker_def uniform_env_def numeral_3_eq_3
  Let_def adapter_send_def max_redirects_def redirect_target_def is_retry_def
  has_retry_after_def resolve_redirects_numeral

subsection \<open>One fetch and its entry\<close>

lemma scrape_single_well_formed:
  assumes "d ''link'' = Some l" and "d ''title'' = Some t"
  shows "scrape_single w d =
     Inr (l, case http_get w l (str_contains ''.onion'' l) of
               Inl e \<Rightarrow> t
             | Inr (status_code, body) \<Rightarrow>
                 if status_code = 200 then
                   (case html_parser w body of
                      Inl e \<Rightarrow> t
                    | Inr soup \<Rightarrow> t @ '' - '' @ page_text soup)
                 else t)"
  using assms
  by (simp add: scrape_single_def scrape_single_try_def getitem_def Let_def
      split: sum.splits prod.splits exn.splits)

lemma scrape_single_link:
  "scrape_single w d = Inr (u, c) \<Longrightarrow> d ''link'' = Some u"
  by (auto simp: scrape_single_def getitem_def Let_def split: option.splits sum.splits)

lemma tor_precheck_returns:
  assumes "never_raises cb"
  shows "tor_precheck w cb ds st =
     (None, st\<lparr>events := events st @
                 (case cb of None \<Rightarrow> [] | Some f \<Rightarrow> precheck_events w ds)\<rparr>)"
proof -
  obtain b where b: "check_tor_connection w = Inr b"
    using check_tor_connection_returns by blast
  show ?thesis
    by (cases b)
      (simp_all add: tor_precheck_def precheck_events_def Let_def b
        call_progress_returns [OF assms] split: option.splits)
qed

lemma scrape_multiple_returns:
  assumes "never_raises cb"
  shows "scrape_multiple en ds cb =
     (Inr (fold store_future (as_completed en (submit_all en ds)) []),
      case cb of None \<Rightarrow> []
      | Some f \<Rightarrow> precheck_events (probe_world en) ds @
          map (task_event (length ds)) (enumerate 0 (as_completed en (submit_all en ds))))"
proof -
  let ?futs = "as_completed en (submit_all en ds)"
  let ?st = "init_state\<lparr>events := events init_state @
                 (case cb of None \<Rightarrow> [] | Some f \<Rightarrow> precheck_events (probe_world en) ds)\<rparr>"
  have p: "tor_precheck (probe_world en) cb ds init_state = (None, ?st)"
    by (rule tor_precheck_returns [OF assms])
  from run_loop_returns [OF assms, of "length ds" ?futs ?st]
  obtain st' where l: "run_loop cb (length ds) ?futs ?st = (None, st')"
    and e: "events st' = events ?st @
             (case cb of None \<Rightarrow> []
              | Some f \<Rightarrow> map (task_event (length ds)) (enumerate (completed ?st) ?futs))"
    by blast
  have r: "results st' = fold store_future ?futs []"
    using results_run_loop [OF l] by (simp add: init_state_def)
  show ?thesis
    using p l e r
    by (simp add: scrape_multiple_def Let_def init_state_def split: option.splits)
qed

lemma result_urls_well_formed:
  assumes "\<forall>d \<in> set ds. well_formed d"
  shows "{u. \<exists>d c. (d, Inr (u, c)) \<in> set (submit_all en ds)} =
         {l. \<exists>d \<in> set ds. d ''link'' = Some l}"
proof (intro equalityI subsetI)
  fix u
  assume "u \<in> {u. \<exists>d c. (d, Inr (u, c)) \<in> set (submit_all en ds)}"
  then obtain i c where "i < length ds"
    and "scrape_single (task_world en i) (ds ! i) = Inr (u, c)"
    by (auto simp: in_submit_all dest: sym)
  then show "u \<in> {l. \<exists>d \<in> set ds. d ''link'' = Some l}"
    using scrape_single_link nth_mem by blast
next
  fix u
  assume "u \<in> {l. \<exists>d \<in> set ds. d ''link'' = Some l}"
  then obtain d where d: "d \<in> set ds" and l: "d ''link'' = Some u"
    by blast
  from d obtain i where i: "i < length ds" and di: "ds ! i = d"
    by (auto simp: in_set_conv_nth)
  from assms d obtain t where t: "d ''title'' = Some t"
    by (auto simp: well_formed_def)
  from scrape_single_well_formed [OF l t, of "task_world en i"]
  obtain c where "scrape_single (task_world en i) d = Inr (u, c)"
    by blast
  with i di have "(d, Inr (u, c)) \<in> set (submit_all en ds)"
    by (auto simp: in_submit_all)
  then show "u \<in> {u. \<exists>d c. (d, Inr (u, c)) \<in> set (submit_all en ds)}"
    by blast
qed

lemma scrape_single_failed:
  assumes "d ''link'' = Some l" and "d ''title'' = Some t" and "\<not> fetch_succeeds w l"
  shows "scrape_single w d = Inr (l, t)"
  using assms(3)
  by (auto simp: scrape_single_well_formed [OF assms(1,2)] fetch_succeeds_def
      split: sum.splits prod.splits)

lemma entry_of_unique_link:
  assumes order: "completion_order en"
    and i: "i < length ds"
    and s: "scrape_single (task_world en i) (ds ! i) = Inr (l, c)"
    and uniq: "\<forall>j < length ds. j \<noteq> i \<longrightarrow> (ds ! j) ''link'' \<noteq> Some l"
    and r: "fst (scrape_multiple en ds cb) = Inr res"
  shows "map_of res l = Some (truncate_content c)"
proof -
  let ?futs = "as_completed en (submit_all en ds)"
  have futs: "set ?futs = set (submit_all en ds)"
    by (rule set_as_completed [OF order])
  have same: "\<forall>d c'. (d, Inr (l, c')) \<in> set ?futs \<longrightarrow> c' = c"
  proof (intro allI impI)
    fix d c'
    assume "(d, Inr (l, c')) \<in> set ?futs"
    then obtain j where j: "j < length ds"
      and sj: "scrape_single (task_world en j) (ds ! j) = Inr (l, c')"
      by (auto simp: futs in_submit_all dest: sym)
    from scrape_single_link [OF sj] uniq j have "j = i" by blast
    with s sj show "c' = c" by simp
  qed
  have "(ds ! i, Inr (l, c)) \<in> set ?futs"
    using i s by (auto simp: futs in_submit_all)
  then have "\<exists>d. (d, Inr (l, c)) \<in> set ?futs" by blast
  with same have "map_of (fold store_future ?futs []) l = Some (truncate_content c)"
    by (intro map_of_fold_store_same) auto
  then show ?thesis
    using scrape_multiple_results [OF r] by simp
qed

subsection \<open>The calls of the callback\<close>

lemma task_status_cases: "task_status fut \<in> {''success'', ''failed'', ''error''}"
  by (simp add: task_status_def split: sum.splits prod.splits)

lemma task_event_nth:
  "k < length futs \<Longrightarrow>
   map (task_event n) (enumerate 0 futs) ! k =
     (dict_get (fst (futs ! k)) ''link'' ''unknown'', task_status (futs ! k), Suc k, n)"
  by (simp add: nth_enumerate_eq task_event_def)

lemma task_event_labels:
  "map fst (map (task_event n) (enumerate k futs)) =
     map (\<lambda>fut. dict_get (fst fut) ''link'' ''unknown'') futs"
proof -
  have "fst \<circ> task_event n = (\<lambda>fut. dict_get (fst fut) ''link'' ''unknown'') \<circ> snd"
    by (auto simp: task_event_def)
  then have "map fst (map (task_event n) (enumerate k futs)) =
             map (\<lambda>fut. dict_get (fst fut) ''link'' ''unknown'') (map snd (enumerate k futs))"
    by (simp only: map_map)
  then show ?thesis by simp
qed

lemma map_fst_submit_all: "map fst (submit_all en ds) = ds"
  by (simp add: submit_all_def comp_def map_nth)

lemma precheck_events_zero: "ev \<in> set (precheck_events w ds) \<Longrightarrow> fst (snd (snd ev)) = 0"
  by (auto simp: precheck_events_def split: if_splits)

subsection \<open>A callback that raises at outcomes only\<close>

lemma process_future_quiet:
  assumes "returns_on_checking_and_error f"
  shows "fst (process_future (Some f) n fut st) = None"
  using assms
  by (auto simp: process_future_def future_failed_def call_progress_def Let_def
      returns_on_checking_and_error_def split: sum.splits prod.splits option.splits)

lemma run_loop_quiet:
  assumes "returns_on_checking_and_error f"
  shows "fst (run_loop (Some f) n futs st) = None"
proof (induction futs arbitrary: st)
  case Nil
  then show ?case by simp
next
  case (Cons fut futs)
  obtain st1 where "process_future (Some f) n fut st = (None, st1)"
    using process_future_quiet [OF assms, of n fut st]
    by (cases "process_future (Some f) n fut st") simp
  then show ?case
    by (simp add: Cons.IH)
qed

lemma tor_precheck_quiet:
  assumes "returns_on_checking_and_error f"
  shows "fst (tor_precheck w (Some f) ds st) = None"
proof -
  obtain b where b: "check_tor_connection w = Inr b"
    using check_tor_connection_returns by blast
  show ?thesis
    using assms
    by (simp add: tor_precheck_def call_progress_def Let_def b
        returns_on_checking_and_error_def)
qed

lemma has_entry:
  assumes "completion_order en"
    and "fst (scrape_multiple en ds cb) = Inr res"
    and "i < length ds"
    and "scrape_single (task_world en i) (ds ! i) = Inr (u, c)"
  shows "u \<in> fst ` set res"
proof -
  let ?futs = "as_completed en (submit_all en ds)"
  have "(ds ! i, Inr (u, c)) \<in> set ?futs"
    using assms(3,4) by (auto simp: set_as_completed [OF assms(1)] in_submit_all)
  then have "u \<in> fst ` set (fold store_future ?futs [])"
    unfolding keys_fold_store by blast
  then show ?thesis
    using scrape_multiple_results [OF assms(2)] by simp
qed


subsection \<open>The text of a page\<close>


lemma concat_split_from:
  "concat (split_from word s) = word @ filter (\<lambda>c. \<not> isspace c) s"
  by (induction s arbitrary: word) auto

lemma split_from_append:
  "isspace c \<Longrightarrow> split_from word (a @ c # b) = split_from word a @ split_from [] b"
  by (induction a arbitrary: word) auto

lemma split_from_no_space:
  "\<forall>c \<in> set s. \<not> isspace c \<Longrightarrow>
     split_from word s = (if word @ s = [] then [] else [word @ s])"
  by (induction s arbitrary: word) auto

lemma str_split_space:
  "isspace c \<Longrightarrow> str_split (a @ c # b) = str_split a @ str_split b"
  by (simp add: str_split_def split_from_append)

lemma str_split_word:
  "\<forall>c \<in> set s. \<not> isspace c \<Longrightarrow> str_split s = (if s = [] then [] else [s])"
  by (simp add: str_split_def split_from_no_space)




subsection \<open>The retry loop and the redirects\<close>









subsection \<open>Raises of the callback\<close>

lemma raised_at_append:
  "k < length evs \<Longrightarrow> raised_at f (evs @ xs) k = raised_at f evs k"
  by (simp add: raised_at_def nth_append)

lemma raised_at_end: "raised_at f (evs @ ev # xs) (length evs) = f evs ev"
  by (simp add: raised_at_def)

lemma caught_at_append: "caught_at n evs k \<Longrightarrow> caught_at n (evs @ xs) k"
  by (auto simp: caught_at_def nth_append)

lemma handled_old:
  assumes "raises_handled f n evs None" and "k < length evs"
    and "raised_at f (evs @ xs) k = Some e"
  shows "caught_at n (evs @ xs) k"
proof -
  have "raised_at f evs k = Some e"
    using assms(2,3) by (simp add: raised_at_append)
  with assms(1,2) have "caught_at n evs k"
    by (simp add: raises_handled_def)
  then show ?thesis
    by (rule caught_at_append)
qed

lemma handled_returning_call:
  assumes "raises_handled f n evs None" and "f evs ev = None"
  shows "raises_handled f n (evs @ [ev]) None"
proof -
  have "caught_at n (evs @ [ev]) k"
    if "k < length (evs @ [ev])" and "raised_at f (evs @ [ev]) k = Some e" for k e
  proof (cases "k < length evs")
    case True
    then show ?thesis
      using handled_old [OF assms(1) True] that(2) by blast
  next
    case False
    with that(1) have "k = length evs" by simp
    with that(2) assms(2) show ?thesis
      by (simp add: raised_at_end)
  qed
  then show ?thesis
    by (simp add: raises_handled_def)
qed

lemma handled_propagating_call:
  assumes "raises_handled f n evs None" and "f evs ev = Some e"
    and "phase ev \<in> {''checking'', ''error''}"
  shows "raises_handled f n (evs @ [ev]) (Some e)"
proof -
  have last: "raised_at f (evs @ [ev]) (length evs) = Some e"
    and pr: "propagated_at (evs @ [ev]) (length evs)"
    using assms(2,3) by (simp_all add: raised_at_end propagated_at_def)
  have "caught_at n (evs @ [ev]) k \<or> (propagated_at (evs @ [ev]) k \<and> e = e')"
    if "k < length (evs @ [ev])" and "raised_at f (evs @ [ev]) k = Some e'" for k e'
  proof (cases "k < length evs")
    case True
    then show ?thesis
      using handled_old [OF assms(1) True] that(2) by blast
  next
    case False
    with that(1) have "k = length evs" by simp
    with that(2) last pr show ?thesis
      by simp
  qed
  with last pr show ?thesis
    by (simp add: raises_handled_def)
qed

lemma handled_caught_call:
  assumes "raises_handled f n evs None" and "f evs ev1 = Some e1"
    and "phase ev1 \<in> {''success'', ''failed''}"
    and "ev2 = (fst ev1, ''error'', m, n)"
    and "f (evs @ [ev1]) ev2 = r"
  shows "raises_handled f n (evs @ [ev1, ev2]) r"
proof -
  have c1: "caught_at n (evs @ [ev1, ev2]) (length evs)"
    using assms(3,4) by (simp add: caught_at_def nth_append)
  have r2: "raised_at f (evs @ [ev1, ev2]) (Suc (length evs)) = r"
    using assms(5) raised_at_end [of f "evs @ [ev1]" ev2 "[]"] by simp
  have p2: "propagated_at (evs @ [ev1, ev2]) (Suc (length evs))"
    using assms(4) by (simp add: propagated_at_def phase_def nth_append)
  have "caught_at n (evs @ [ev1, ev2]) k \<or>
        (propagated_at (evs @ [ev1, ev2]) k \<and> r = Some e)"
    if "k < length (evs @ [ev1, ev2])" and "raised_at f (evs @ [ev1, ev2]) k = Some e" for k e
  proof -
    from that(1) consider "k < length evs" | "k = length evs" | "k = Suc (length evs)"
      by (auto simp: less_Suc_eq)
    then show ?thesis
    proof cases
      case 1
      then show ?thesis
        using handled_old [OF assms(1) 1] that(2) by blast
    next
      case 2
      then show ?thesis using c1 by simp
    next
      case 3
      then show ?thesis using r2 p2 that(2) by simp
    qed
  qed
  moreover have "evs @ [ev1, ev2] \<noteq> []"
    and "length (evs @ [ev1, ev2]) - 1 = Suc (length evs)"
    by simp_all
  ultimately show ?thesis
    using r2 p2 by (simp add: raises_handled_def)
qed

lemma call_progress_Some:
  "call_progress (Some f) ev st = (f (events st) ev, st\<lparr>events := events st @ [ev]\<rparr>)"
  by (simp add: call_progress_def)

lemma handled_call:
  assumes "raises_handled f n (events st) None"
    and "phase ev \<in> {''checking'', ''error''}"
    and "call_progress (Some f) ev st = (r, st')"
  shows "raises_handled f n (events st') r"
proof (cases r)
  case None
  with assms(3) have "f (events st) ev = None" "events st' = events st @ [ev]"
    by (auto simp: call_progress_Some)
  with handled_returning_call [OF assms(1)] None show ?thesis by simp
next
  case (Some e)
  with assms(3) have "f (events st) ev = Some e" "events st' = events st @ [ev]"
    by (auto simp: call_progress_Some)
  with handled_propagating_call [OF assms(1) _ assms(2)] Some show ?thesis by simp
qed

lemma future_failed_Some:
  "future_failed (Some f) n url st = (r, st') \<Longrightarrow>
     r = f (events st) (url, ''error'', Suc (completed st), n) \<and>
     events st' = events st @ [(url, ''error'', Suc (completed st), n)]"
  by (auto simp: future_failed_def Let_def call_progress_Some)

lemma future_failed_handled:
  assumes "raises_handled f n (events st) None"
    and "future_failed (Some f) n url st = (r, st')"
  shows "raises_handled f n (events st') r"
proof -
  let ?ev = "(url, ''error'', Suc (completed st), n)"
  from future_failed_Some [OF assms(2)]
  have r: "f (events st) ?ev = r" and e: "events st' = events st @ [?ev]"
    by simp_all
  show ?thesis
  proof (cases r)
    case None
    with handled_returning_call [OF assms(1), of ?ev] r e show ?thesis by simp
  next
    case (Some x)
    with handled_propagating_call [OF assms(1), of ?ev x] r e show ?thesis
      by (simp add: phase_def)
  qed
qed

lemma outcome_call_handled:
  assumes "raises_handled f n (events st) None"
    and "status \<in> {''success'', ''failed''}"
    and "(case call_progress (Some f) (url, status, m, n) st of
            (None, st4) \<Rightarrow> (None, st4)
          | (Some e, st4) \<Rightarrow> future_failed (Some f) n url st4) = (r, st')"
  shows "raises_handled f n (events st') r"
proof (cases "f (events st) (url, status, m, n)")
  case None
  with assms(3) have "r = None" "events st' = events st @ [(url, status, m, n)]"
    by (auto simp: call_progress_Some)
  with handled_returning_call [OF assms(1) None] show ?thesis by simp
next
  case (Some e1)
  let ?ev1 = "(url, status, m, n)"
  let ?st4 = "st\<lparr>events := events st @ [?ev1]\<rparr>"
  from assms(3) Some have ff: "future_failed (Some f) n url ?st4 = (r, st')"
    by (simp add: call_progress_Some)
  let ?ev2 = "(url, ''error'', Suc (completed st), n)"
  from future_failed_Some [OF ff]
  have r: "f (events st @ [?ev1]) ?ev2 = r" and e: "events st' = events st @ [?ev1, ?ev2]"
    by simp_all
  have ph: "phase ?ev1 \<in> {''success'', ''failed''}"
    using assms(2) by (simp add: phase_def)
  have e2: "?ev2 = (fst ?ev1, ''error'', Suc (completed st), n)"
    by simp
  from handled_caught_call [OF assms(1) Some ph e2 r] e show ?thesis
    by simp
qed

lemma process_future_handled:
  assumes "raises_handled f n (events st) None"
    and "process_future (Some f) n fut st = (r, st')"
  shows "raises_handled f n (events st') r"
proof (cases "snd fut")
  case (Inl x)
  then have "process_future (Some f) n fut st =
      future_failed (Some f) n (dict_get (fst fut) ''link'' ''unknown'') st"
    by (simp add: process_future_def Let_def)
  with assms(2) have "future_failed (Some f) n (dict_get (fst fut) ''link'' ''unknown'') st
      = (r, st')"
    by simp
  then show ?thesis
    by (rule future_failed_handled [OF assms(1)])
next
  case (Inr uc)
  obtain u c where uc: "snd fut = Inr (u, c)"
    using Inr by (cases uc) simp
  let ?url = "dict_get (fst fut) ''link'' ''unknown''"
  let ?st2 = "st\<lparr>results := AList.update u (truncate_content c) (results st),
                  completed := completed st + 1\<rparr>"
  show ?thesis
  proof (cases "length (truncate_content c) > length (dict_get (fst fut) ''title'' []) + 10")
    case True
    let ?st3 = "?st2\<lparr>success_count := success_count st + 1\<rparr>"
    have eq: "process_future (Some f) n fut st =
        (case call_progress (Some f) (?url, ''success'', Suc (completed st), n) ?st3 of
            (None, st4) \<Rightarrow> (None, st4)
          | (Some e, st4) \<Rightarrow> future_failed (Some f) n ?url st4)"
      using uc True by (simp add: process_future_def Let_def)
    have h: "raises_handled f n (events ?st3) None"
      using assms(1) by simp
    have s: "''success'' \<in> {''success'', ''failed''}"
      by simp
    show ?thesis
      by (rule outcome_call_handled [OF h s assms(2) [unfolded eq]])
  next
    case False
    let ?st3 = "?st2\<lparr>fail_count := fail_count st + 1\<rparr>"
    have eq: "process_future (Some f) n fut st =
        (case call_progress (Some f) (?url, ''failed'', Suc (completed st), n) ?st3 of
            (None, st4) \<Rightarrow> (None, st4)
          | (Some e, st4) \<Rightarrow> future_failed (Some f) n ?url st4)"
      using uc False by (simp add: process_future_def Let_def)
    have h: "raises_handled f n (events ?st3) None"
      using assms(1) by simp
    have s: "''failed'' \<in> {''success'', ''failed''}"
      by simp
    show ?thesis
      by (rule outcome_call_handled [OF h s assms(2) [unfolded eq]])
  qed
qed

lemma run_loop_handled:
  assumes "raises_handled f n (events st) None"
    and "run_loop (Some f) n futs st = (r, st')"
  shows "raises_handled f n (events st') r"
  using assms
proof (induction futs arbitrary: st)
  case Nil
  then show ?case by simp
next
  case (Cons fut futs)
  obtain r1 st1 where p: "process_future (Some f) n fut st = (r1, st1)"
    by (cases "process_future (Some f) n fut st")
  have h: "raises_handled f n (events st1) r1"
    by (rule process_future_handled [OF Cons.prems(1) p])
  show ?case
  proof (cases r1)
    case None
    with Cons.prems(2) p have "run_loop (Some f) n futs st1 = (r, st')"
      by simp
    with Cons.IH h None show ?thesis by blast
  next
    case (Some e)
    with Cons.prems(2) p have "r = r1" "st' = st1"
      by simp_all
    with h show ?thesis by simp
  qed
qed

lemma tor_precheck_handled:
  assumes "raises_handled f (length ds) (events st) None"
    and "tor_precheck w (Some f) ds st = (r, st')"
  shows "raises_handled f (length ds) (events st') r"
proof (cases "\<exists>url_data \<in> set ds. str_contains ''.onion'' (dict_get url_data ''link'' [])")
  case False
  with assms show ?thesis
    by (simp add: tor_precheck_def)
next
  case True
  let ?ev1 = "(''Checking Tor connection...'', ''checking'', 0 :: nat, length ds)"
  let ?ev2 = "(''Tor NOT running!'', ''error'', 0 :: nat, length ds)"
  obtain r1 st1 where c1: "call_progress (Some f) ?ev1 st = (r1, st1)"
    by (cases "call_progress (Some f) ?ev1 st")
  have h1: "raises_handled f (length ds) (events st1) r1"
    by (rule handled_call [OF assms(1) _ c1]) (simp add: phase_def)
  obtain b where b: "check_tor_connection w = Inr b"
    using check_tor_connection_returns by blast
  show ?thesis
  proof (cases r1)
    case (Some e)
    with assms(2) True c1 have "r = r1" "st' = st1"
      by (simp_all add: tor_precheck_def Let_def)
    with h1 show ?thesis by simp
  next
    case None
    show ?thesis
    proof (cases b)
      case True
      with assms(2) \<open>\<exists>url_data \<in> set ds. _\<close> c1 None b have "r = None" "st' = st1"
        by (simp_all add: tor_precheck_def Let_def)
      with h1 None show ?thesis by simp
    next
      case False
      with assms(2) \<open>\<exists>url_data \<in> set ds. _\<close> c1 None b
      have c2: "call_progress (Some f) ?ev2 st1 = (r, st')"
        by (simp add: tor_precheck_def Let_def)
      from h1 None have "raises_handled f (length ds) (events st1) None"
        by simp
      from handled_call [OF this _ c2] show ?thesis
        by (simp add: phase_def)
    qed
  qed
qed

lemma raises_handled_init: "raises_handled f n (events init_state) None"
  by (simp add: raises_handled_def init_state_def)

lemma scrape_multiple_handled:
  assumes "scrape_multiple en ds (Some f) = (out, evs)"
  shows "raises_handled f (length ds) evs (case out of Inl e \<Rightarrow> Some e | Inr res \<Rightarrow> None)"
proof -
  obtain r st where p: "tor_precheck (probe_world en) (Some f) ds init_state = (r, st)"
    by (cases "tor_precheck (probe_world en) (Some f) ds init_state")
  have h: "raises_handled f (length ds) (events st) r"
    by (rule tor_precheck_handled [OF raises_handled_init p])
  show ?thesis
  proof (cases r)
    case (Some e)
    with assms p have "out = Inl e" "evs = events st"
      by (simp_all add: scrape_multiple_def Let_def)
    with h Some show ?thesis by simp
  next
    case None
    obtain r' st' where l:
      "run_loop (Some f) (length ds) (as_completed en (submit_all en ds)) st = (r', st')"
      by (cases "run_loop (Some f) (length ds) (as_completed en (submit_all en ds)) st")
    from h None have "raises_handled f (length ds) (events st) None"
      by simp
    from run_loop_handled [OF this l] have h': "raises_handled f (length ds) (events st') r'" .
    show ?thesis
    proof (cases r')
      case None
      with assms p l \<open>r = None\<close> have "out = Inr (results st')" "evs = events st'"
        by (simp_all add: scrape_multiple_def Let_def)
      with h' None show ?thesis by simp
    next
      case (Some e)
      with assms p l \<open>r = None\<close> have "out = Inl e" "evs = events st'"
        by (simp_all add: scrape_multiple_def Let_def)
      with h' Some show ?thesis by simp
    qed
  qed
qed

lemma quiet_callback_returns:
  assumes "completion_order en"
    and "returns_on_checking_and_error f"
  shows "\<exists>res. fst (scrape_multiple en ds (Some f)) = Inr res \<and>
           (\<forall>i < length ds. \<forall>u c.
              scrape_single (task_world en i) (ds ! i) = Inr (u, c) \<longrightarrow> u \<in> fst ` set res)"
proof -
  obtain st where p: "tor_precheck (probe_world en) (Some f) ds init_state = (None, st)"
    using tor_precheck_quiet [OF assms(2), of "probe_world en" ds init_state]
    by (cases "tor_precheck (probe_world en) (Some f) ds init_state") simp
  obtain st' where
    l: "run_loop (Some f) (length ds) (as_completed en (submit_all en ds)) st = (None, st')"
    using run_loop_quiet [OF assms(2), of "length ds" "as_completed en (submit_all en ds)" st]
    by (metis prod.collapse)
  have r: "fst (scrape_multiple en ds (Some f)) = Inr (results st')"
    by (simp add: scrape_multiple_def Let_def p l)
  show ?thesis
    using r has_entry [OF assms(1) r] by blast
qed

lemma entries_when_all_fail:
  assumes "\<forall>d \<in> set ds. well_formed d"
    and "completion_order en"
    and "\<forall>i < length ds. \<forall>l. (ds ! i) ''link'' = Some l \<longrightarrow> \<not> fetch_succeeds (task_world en i) l"
    and "fst (scrape_multiple en ds cb) = Inr res"
    and "(u, v) \<in> set res"
  shows "\<exists>i < length ds. \<exists>t. (ds ! i) ''link'' = Some u \<and> (ds ! i) ''title'' = Some t \<and>
           v = truncate_content t"
proof -
  let ?futs = "as_completed en (submit_all en ds)"
  have "res = fold store_future ?futs []"
    using assms(4) by (rule scrape_multiple_results)
  with assms(5) values_fold_store [of u v ?futs "[]"]
  obtain d c where m: "(d, Inr (u, c)) \<in> set ?futs" and v: "v = truncate_content c"
    by auto
  from m have "(d, Inr (u, c)) \<in> set (submit_all en ds)"
    by (simp add: set_as_completed [OF assms(2)])
  then obtain i where i: "i < length ds"
    and s: "scrape_single (task_world en i) (ds ! i) = Inr (u, c)"
    by (auto simp: in_submit_all)
  have l: "(ds ! i) ''link'' = Some u"
    by (rule scrape_single_link [OF s])
  from assms(1) i have "well_formed (ds ! i)"
    by simp
  then obtain t where t: "(ds ! i) ''title'' = Some t"
    by (auto simp: well_formed_def)
  from assms(3) i l have "\<not> fetch_succeeds (task_world en i) u"
    by blast
  from scrape_single_failed [OF l t this] s have "c = t"
    by simp
  with i l t v show ?thesis by blast
qed

section \<open>The claims\<close>

text \<open>
  C6. Every text stored in the batch result is at most 2000 characters plus the length of
  the truncation marker long. It is the truncation of the text \<open>c\<close> that
  \<^const>\<open>scrape_single\<close> returned for a task with that link: when \<open>c\<close> has more than 2000
  characters, so when it has 2005, the stored text is the first 2000 characters of \<open>c\<close>
  followed by the marker, and otherwise it is \<open>c\<close>.
\<close>

theorem stored_text_truncated:
  assumes "completion_order en"
    and "fst (scrape_multiple en ds cb) = Inr res"
    and "(u, v) \<in> set res"
  shows "length v \<le> 2000 + length truncation_marker \<and>
         (\<exists>i < length ds. \<exists>c.
             scrape_single (task_world en i) (ds ! i) = Inr (u, c) \<and>
             v = truncate_content c \<and>
             (length c > 2000 \<longrightarrow> v = take 2000 c @ truncation_marker) \<and>
             (length c = 2005 \<longrightarrow> v = take 2000 c @ truncation_marker) \<and>
             (length c \<le> 2000 \<longrightarrow> v = c))"
proof -
  let ?futs = "as_completed en (submit_all en ds)"
  have "res = fold store_future ?futs []"
    using assms(2) by (rule scrape_multiple_results)
  with assms(3) values_fold_store [of u v ?futs "[]"]
  obtain d c where m: "(d, Inr (u, c)) \<in> set ?futs" and v: "v = truncate_content c"
    by auto
  from m have "(d, Inr (u, c)) \<in> set (submit_all en ds)"
    by (simp add: set_as_completed [OF assms(1)])
  then obtain i where i: "i < length ds"
    and s: "scrape_single (task_world en i) (ds ! i) = Inr (u, c)"
    by (auto simp: in_submit_all)
  have "length v \<le> 2000 + length truncation_marker"
    using length_truncate_content [of c] v by (simp add: max_chars_def)
  moreover have "length c > 2000 \<longrightarrow> v = take 2000 c @ truncation_marker"
    and "length c = 2005 \<longrightarrow> v = take 2000 c @ truncation_marker"
    and "length c \<le> 2000 \<longrightarrow> v = c"
    using v by (simp_all add: truncate_content_def max_chars_def)
  ultimately show ?thesis
    using i s v by blast
qed

theorem stored_text_truncated_witness:
  "completion_order (uniform_env unreachable_world) \<and>
   fst (scrape_multiple (uniform_env unreachable_world)
          [[''link'' \<mapsto> ''http://a.test/'', ''title'' \<mapsto> replicate 2005 CHR ''t'']] None)
     = Inr [(''http://a.test/'', replicate 2000 CHR ''t'' @ ''...(truncated)'')] \<and>
   length (replicate 2000 CHR ''t'' @ ''...(truncated)'') \<le> 2000 + length truncation_marker"
proof -
  have o: "completion_order (uniform_env unreachable_world)"
    by (rule completion_order_uniform)
  have r: "fst (scrape_multiple (uniform_env unreachable_world)
          [[''link'' \<mapsto> ''http://a.test/'', ''title'' \<mapsto> replicate 2005 CHR ''t'']] None)
     = Inr [(''http://a.test/'', replicate 2000 CHR ''t'' @ ''...(truncated)'')]"
    by (simp add: run_defs unreachable_world_def)
  from stored_text_truncated [OF o r,
      of "''http://a.test/''" "replicate 2000 CHR ''t'' @ ''...(truncated)''"]
  show ?thesis using o r by simp
qed

text \<open>
  C2, as the code has it. \<^const>\<open>scrape_single\<close> returns for every task with both keys,
  whatever the request and the parser do. When the fetch does not succeed (the request
  raises, the status is not 200, or the parser raises), the text it returns is the title
  alone. The batch result then holds for that link the title truncated like any other
  text, which is the title itself when the title has at most 2000 characters, provided no
  other task of the batch has the same link.
\<close>

theorem failed_fetch_falls_back_to_title:
  assumes "completion_order en"
    and "i < length ds"
    and "(ds ! i) ''link'' = Some l"
    and "(ds ! i) ''title'' = Some t"
  shows "(\<exists>c. scrape_single (task_world en i) (ds ! i) = Inr (l, c)) \<and>
         (\<not> fetch_succeeds (task_world en i) l \<longrightarrow>
            scrape_single (task_world en i) (ds ! i) = Inr (l, t) \<and>
            (\<forall>res. fst (scrape_multiple en ds cb) = Inr res \<and>
                   (\<forall>j < length ds. j \<noteq> i \<longrightarrow> (ds ! j) ''link'' \<noteq> Some l) \<longrightarrow>
                   map_of res l = Some (truncate_content t) \<and>
                   (length t \<le> 2000 \<longrightarrow> map_of res l = Some t)))"
proof (intro conjI impI allI)
  show "\<exists>c. scrape_single (task_world en i) (ds ! i) = Inr (l, c)"
    by (simp add: scrape_single_well_formed [OF assms(3,4)])
next
  assume f: "\<not> fetch_succeeds (task_world en i) l"
  show s: "scrape_single (task_world en i) (ds ! i) = Inr (l, t)"
    by (rule scrape_single_failed [OF assms(3,4) f])
  fix res
  assume a: "fst (scrape_multiple en ds cb) = Inr res \<and>
             (\<forall>j < length ds. j \<noteq> i \<longrightarrow> (ds ! j) ''link'' \<noteq> Some l)"
  then show m: "map_of res l = Some (truncate_content t)"
    using entry_of_unique_link [OF assms(1,2) s] by blast
  assume "length t \<le> 2000"
  with m show "map_of res l = Some t"
    by (simp add: truncate_content_def max_chars_def)
qed

theorem failed_fetch_falls_back_to_title_witness:
  "\<not> fetch_succeeds unreachable_world ''http://b.test/'' \<and>
   scrape_single unreachable_world (task ''http://b.test/'' ''B'') = Inr (''http://b.test/'', ''B'') \<and>
   fst (scrape_multiple (uniform_env unreachable_world)
          [task ''http://a.test/'' ''A'', task ''http://b.test/'' ''B''] None)
     = Inr [(''http://b.test/'', ''B''), (''http://a.test/'', ''A'')] \<and>
   map_of [(''http://b.test/'', ''B''), (''http://a.test/'', ''A'')] ''http://b.test/'' = Some ''B''"
proof -
  let ?ds = "[task ''http://a.test/'' ''A'', task ''http://b.test/'' ''B'']"
  let ?en = "uniform_env unreachable_world"
  have f: "\<not> fetch_succeeds (task_world ?en 1) ''http://b.test/''"
    by (simp add: fetch_succeeds_def run_defs unreachable_world_def)
  have r: "fst (scrape_multiple ?en ?ds None)
     = Inr [(''http://b.test/'', ''B''), (''http://a.test/'', ''A'')]"
    by (simp add: run_defs unreachable_world_def task_def)
  have u: "\<forall>j < length ?ds. j \<noteq> 1 \<longrightarrow> (?ds ! j) ''link'' \<noteq> Some ''http://b.test/''"
    by (simp add: task_def less_Suc_eq)
  from failed_fetch_falls_back_to_title [OF completion_order_uniform,
      of 1 ?ds "''http://b.test/''" "''B''" unreachable_world None] f r u
  show ?thesis
    by (simp add: task_def uniform_env_def)
qed

text \<open>
  C2 as stated fails for a long title: the fetch fails, and the entry of the batch result
  is the first 2000 characters of the title followed by the marker, not the title.
\<close>

theorem failed_fetch_long_title_counterexample:
  "\<not> fetch_succeeds unreachable_world ''http://a.test/'' \<and>
   fst (scrape_multiple (uniform_env unreachable_world)
          [task ''http://a.test/'' (replicate 2001 CHR ''t'')] None)
     = Inr [(''http://a.test/'', replicate 2000 CHR ''t'' @ ''...(truncated)'')] \<and>
   replicate 2000 CHR ''t'' @ ''...(truncated)'' \<noteq> replicate 2001 CHR ''t''"
proof -
  have "length (replicate 2000 CHR ''t'' @ ''...(truncated)'') \<noteq> length (replicate 2001 CHR ''t'')"
    by simp
  then have "replicate 2000 CHR ''t'' @ ''...(truncated)'' \<noteq> replicate 2001 CHR ''t''"
    by metis
  moreover have "\<not> fetch_succeeds unreachable_world ''http://a.test/''"
    by (simp add: fetch_succeeds_def run_defs unreachable_world_def)
  moreover have "fst (scrape_multiple (uniform_env unreachable_world)
          [task ''http://a.test/'' (replicate 2001 CHR ''t'')] None)
     = Inr [(''http://a.test/'', replicate 2000 CHR ''t'' @ ''...(truncated)'')]"
    by (simp add: run_defs unreachable_world_def task_def)
  ultimately show ?thesis by blast
qed

text \<open>
  C5. With a progress callback that never raises, the batch returns, and after the calls
  of the Tor check the callback is called exactly once per task: the labels of these calls
  are the links of the tasks, each as often as it occurs in the input, whether the fetch
  failed or not. The \<open>k\<close>-th of them has phase success, failed or error and carries the
  counts \<open>k\<close> of \<open>n\<close>, where \<open>n\<close> is the number of tasks, so the last call of a batch that
  is not empty carries \<open>n\<close> of \<open>n\<close>.
\<close>

theorem one_progress_event_per_task:
  assumes "completion_order en" and "never_raises (Some f)"
  shows "\<exists>res task_events.
           scrape_multiple en ds (Some f) =
             (Inr res, precheck_events (probe_world en) ds @ task_events) \<and>
           length task_events = length ds \<and>
           mset (map fst task_events) = mset (map (\<lambda>d. dict_get d ''link'' ''unknown'') ds) \<and>
           (\<forall>k < length ds. \<exists>url status.
              task_events ! k = (url, status, Suc k, length ds) \<and>
              status \<in> {''success'', ''failed'', ''error''}) \<and>
           (ds \<noteq> [] \<longrightarrow> (\<exists>url status.
              last (snd (scrape_multiple en ds (Some f))) = (url, status, length ds, length ds)))"
proof -
  let ?futs = "as_completed en (submit_all en ds)"
  let ?n = "length ds"
  let ?evs = "map (task_event ?n) (enumerate 0 ?futs)"
  have len: "length ?futs = ?n"
    by (simp add: length_as_completed [OF assms(1)] submit_all_def)
  have run: "scrape_multiple en ds (Some f) =
      (Inr (fold store_future ?futs []), precheck_events (probe_world en) ds @ ?evs)"
    using scrape_multiple_returns [OF assms(2), of en ds] by simp
  have l: "length ?evs = ?n"
    by (simp add: len)
  have "mset (map fst ?evs) = image_mset (\<lambda>fut. dict_get (fst fut) ''link'' ''unknown'') (mset ?futs)"
    by (simp only: task_event_labels mset_map)
  also have "mset ?futs = mset (submit_all en ds)"
    using assms(1) by (simp add: completion_order_def)
  also have "image_mset (\<lambda>fut. dict_get (fst fut) ''link'' ''unknown'') (mset (submit_all en ds)) =
             mset (map (\<lambda>d. dict_get d ''link'' ''unknown'') (map fst (submit_all en ds)))"
    by (simp add: comp_def)
  finally have m: "mset (map fst ?evs) = mset (map (\<lambda>d. dict_get d ''link'' ''unknown'') ds)"
    by (simp only: map_fst_submit_all)
  have k: "\<forall>k < ?n. \<exists>url status.
              ?evs ! k = (url, status, Suc k, ?n) \<and>
              status \<in> {''success'', ''failed'', ''error''}"
    using task_event_nth [of _ ?futs ?n] task_status_cases len by metis
  have final: "ds \<noteq> [] \<longrightarrow> (\<exists>url status.
              last (snd (scrape_multiple en ds (Some f))) = (url, status, ?n, ?n))"
  proof
    assume ne: "ds \<noteq> []"
    then have "?evs \<noteq> []" using l by (metis length_0_conv)
    then have "last (precheck_events (probe_world en) ds @ ?evs) = last ?evs"
      and "last ?evs = ?evs ! (length ?evs - 1)"
      by (simp only: last_append if_False, rule last_conv_nth)
    then have "last (snd (scrape_multiple en ds (Some f))) = ?evs ! (?n - 1)"
      by (simp only: run snd_conv l)
    moreover have "?n - 1 < ?n" using ne by simp
    ultimately show "\<exists>url status.
              last (snd (scrape_multiple en ds (Some f))) = (url, status, ?n, ?n)"
      using k ne by (metis Suc_diff_1 length_greater_0_conv)
  qed
  from run l m k final show ?thesis by blast
qed

theorem one_progress_event_per_task_witness:
  "scrape_multiple (uniform_env unreachable_world)
      [task ''http://a.test/'' ''A'', task ''http://b.onion/'' ''B''] (Some (\<lambda>h ev. None)) =
     (Inr [(''http://b.onion/'', ''B''), (''http://a.test/'', ''A'')],
      [(''Checking Tor connection...'', ''checking'', 0, 2),
       (''Tor NOT running!'', ''error'', 0, 2),
       (''http://b.onion/'', ''failed'', 1, 2),
       (''http://a.test/'', ''failed'', 2, 2)])"
proof -
  have n: "never_raises (Some (\<lambda>h ev. None))"
    by (simp add: never_raises_def)
  from one_progress_event_per_task [OF completion_order_uniform n,
      of unreachable_world "[task ''http://a.test/'' ''A'', task ''http://b.onion/'' ''B'']"]
  show ?thesis
    by (simp add: run_defs unreachable_world_def task_def)
qed

text \<open>
  C9, as the code has it. When a link of the batch contains the onion marker, the probe
  fails and the callback returns at every call, the callback is called with the label
  \<open>Tor NOT running!\<close> and phase error, right after the call with phase checking, and the
  batch proceeds: one call per task follows, and the dictionary returned has the link of
  every task whose fetch returned. The result of a task is its title, truncated like any
  other text, when its own fetch does not succeed and no other task has its link; the
  failure of the probe does not decide it.
\<close>

theorem probe_failure_reported_and_batch_proceeds:
  assumes "completion_order en"
    and "never_raises (Some f)"
    and "\<exists>d \<in> set ds. str_contains ''.onion'' (dict_get d ''link'' [])"
    and "check_tor_connection (probe_world en) = Inr False"
  shows "\<exists>res task_events.
           scrape_multiple en ds (Some f) =
             (Inr res,
              (''Checking Tor connection...'', ''checking'', 0, length ds) #
              (''Tor NOT running!'', ''error'', 0, length ds) # task_events) \<and>
           length task_events = length ds \<and>
           (\<forall>i < length ds. \<forall>u c.
              scrape_single (task_world en i) (ds ! i) = Inr (u, c) \<longrightarrow> u \<in> fst ` set res) \<and>
           (\<forall>i < length ds. \<forall>l t.
              (ds ! i) ''link'' = Some l \<and> (ds ! i) ''title'' = Some t \<and>
              \<not> fetch_succeeds (task_world en i) l \<and>
              (\<forall>j < length ds. j \<noteq> i \<longrightarrow> (ds ! j) ''link'' \<noteq> Some l) \<longrightarrow>
              map_of res l = Some (truncate_content t))"
proof -
  let ?futs = "as_completed en (submit_all en ds)"
  let ?res = "fold store_future ?futs []"
  let ?evs = "map (task_event (length ds)) (enumerate 0 ?futs)"
  have pre: "precheck_events (probe_world en) ds =
      [(''Checking Tor connection...'', ''checking'', 0, length ds),
       (''Tor NOT running!'', ''error'', 0, length ds)]"
    using assms(3,4) by (simp add: precheck_events_def)
  have run: "scrape_multiple en ds (Some f) =
      (Inr ?res,
       (''Checking Tor connection...'', ''checking'', 0, length ds) #
       (''Tor NOT running!'', ''error'', 0, length ds) # ?evs)"
    using scrape_multiple_returns [OF assms(2), of en ds] by (simp add: pre)
  then have r: "fst (scrape_multiple en ds (Some f)) = Inr ?res"
    by simp
  have len: "length ?evs = length ds"
    by (simp add: length_as_completed [OF assms(1)] submit_all_def)
  have keys: "\<forall>i < length ds. \<forall>u c.
      scrape_single (task_world en i) (ds ! i) = Inr (u, c) \<longrightarrow> u \<in> fst ` set ?res"
    using has_entry [OF assms(1) r] by blast
  have fall: "\<forall>i < length ds. \<forall>l t.
      (ds ! i) ''link'' = Some l \<and> (ds ! i) ''title'' = Some t \<and>
      \<not> fetch_succeeds (task_world en i) l \<and>
      (\<forall>j < length ds. j \<noteq> i \<longrightarrow> (ds ! j) ''link'' \<noteq> Some l) \<longrightarrow>
      map_of ?res l = Some (truncate_content t)"
  proof (intro allI impI)
    fix i l t
    assume i: "i < length ds"
      and a: "(ds ! i) ''link'' = Some l \<and> (ds ! i) ''title'' = Some t \<and>
              \<not> fetch_succeeds (task_world en i) l \<and>
              (\<forall>j < length ds. j \<noteq> i \<longrightarrow> (ds ! j) ''link'' \<noteq> Some l)"
    then have s: "scrape_single (task_world en i) (ds ! i) = Inr (l, t)"
      by (simp add: scrape_single_failed)
    from a have u: "\<forall>j < length ds. j \<noteq> i \<longrightarrow> (ds ! j) ''link'' \<noteq> Some l"
      by blast
    show "map_of ?res l = Some (truncate_content t)"
      by (rule entry_of_unique_link [OF assms(1) i s u r])
  qed
  from run len keys fall show ?thesis by blast
qed

theorem probe_failure_reported_and_batch_proceeds_witness:
  "check_tor_connection unreachable_world = Inr False \<and>
   scrape_multiple (uniform_env unreachable_world) [task ''http://b.onion/'' ''B'']
      (Some (\<lambda>h ev. None)) =
     (Inr [(''http://b.onion/'', ''B'')],
      [(''Checking Tor connection...'', ''checking'', 0, 1),
       (''Tor NOT running!'', ''error'', 0, 1),
       (''http://b.onion/'', ''failed'', 1, 1)])"
proof -
  let ?ds = "[task ''http://b.onion/'' ''B'']"
  have n: "never_raises (Some (\<lambda>h ev. None))"
    by (simp add: never_raises_def)
  have o: "\<exists>d \<in> set ?ds. str_contains ''.onion'' (dict_get d ''link'' [])"
    by (simp add: task_def dict_get_def)
  have p: "check_tor_connection (probe_world (uniform_env unreachable_world)) = Inr False"
    by (simp add: run_defs unreachable_world_def)
  from probe_failure_reported_and_batch_proceeds [OF completion_order_uniform n o p] p
  show ?thesis
    by (simp add: run_defs unreachable_world_def task_def)
qed

text \<open>
  C9 as stated fails: the probe reaches nothing while the onion page is served. The call
  that reports the probe has phase error, no call has phase failed, and the result of
  the onion task is its page, not its title.
\<close>

theorem probe_failure_counterexample:
  "check_tor_connection (probe_world probe_down_env) = Inr False \<and>
   scrape_multiple probe_down_env [task ''http://example.onion/ok'' ''Example'']
      (Some (\<lambda>h ev. None)) =
     (Inr [(''http://example.onion/ok'', ''Example - Hello World'')],
      [(''Checking Tor connection...'', ''checking'', 0, 1),
       (''Tor NOT running!'', ''error'', 0, 1),
       (''http://example.onion/ok'', ''success'', 1, 1)])"
  by (simp add: run_defs probe_down_env_def unreachable_world_def scenario_A_world_def
      scenario_A_soup_def scenario_A_body_def task_def)






text \<open>
  C7, as the code has it. \<^const>\<open>check_tor_connection\<close> never raises. It returns true
  exactly when the check service answers 200 and the body parses to a JSON object; every
  exception and every other status gives false. The \<open>IsTor\<close> flag of the reply is not
  part of the decision.
\<close>

theorem probe_true_iff_200_and_json_object:
  "(\<exists>b. check_tor_connection w = Inr b) \<and>
   (check_tor_connection w = Inr True \<longleftrightarrow>
      (\<exists>body kvs.
         session_get w (requests_Session\<lparr>proxies := tor_proxies\<rparr>)
           ''https://check.torproject.org/api/ip'' = Inr (200, body) \<and>
         json_loads w body = Inr (JObject kvs))) \<and>
   (\<forall>e. session_get w (requests_Session\<lparr>proxies := tor_proxies\<rparr>)
           ''https://check.torproject.org/api/ip'' = Inl e \<longrightarrow>
        check_tor_connection w = Inr False) \<and>
   (\<forall>status_code body.
        session_get w (requests_Session\<lparr>proxies := tor_proxies\<rparr>)
           ''https://check.torproject.org/api/ip'' = Inr (status_code, body) \<and>
        status_code \<noteq> 200 \<longrightarrow>
        check_tor_connection w = Inr False)"
  by (auto simp: check_tor_connection_def check_tor_connection_try_def
      split: sum.splits prod.splits json.splits bool.splits)

theorem probe_true_iff_200_and_json_object_witness:
  "check_tor_connection unreachable_world = Inr False \<and>
   check_tor_connection exit_not_tor_world = Inr True"
proof -
  have "session_get unreachable_world (requests_Session\<lparr>proxies := tor_proxies\<rparr>)
           ''https://check.torproject.org/api/ip'' = Inl ConnectTimeout"
    by (simp add: run_defs unreachable_world_def)
  moreover have "session_get exit_not_tor_world (requests_Session\<lparr>proxies := tor_proxies\<rparr>)
           ''https://check.torproject.org/api/ip'' = Inr (200, ''reply'') \<and>
         json_loads exit_not_tor_world ''reply'' =
           Inr (JObject [(''IP'', JString ''203.0.113.7''), (''IsTor'', JBool False)])"
    by (simp add: run_defs exit_not_tor_world_def)
  ultimately show ?thesis
    using probe_true_iff_200_and_json_object [of unreachable_world]
      probe_true_iff_200_and_json_object [of exit_not_tor_world]
    by blast
qed

text \<open>
  C7 as stated fails: the service answers 200 with an object whose \<open>IsTor\<close> is false,
  which does not confirm the exit through Tor, and the probe returns true.
\<close>

theorem probe_true_without_tor_counterexample:
  "check_tor_connection exit_not_tor_world = Inr True \<and>
   json_loads exit_not_tor_world ''reply'' =
     Inr (JObject [(''IP'', JString ''203.0.113.7''), (''IsTor'', JBool False)]) \<and>
   \<not> confirms_tor_egress (JObject [(''IP'', JString ''203.0.113.7''), (''IsTor'', JBool False)])"
  by (simp add: run_defs exit_not_tor_world_def confirms_tor_egress_def)




text \<open>
  C8, as the code has it. A raise of the callback at the call that reports a success or
  a failure is caught by the \<^verbatim>\<open>except\<close> of the loop, whose handler calls the callback
  again with the same label and phase error. A raise at a call with phase checking or
  error is not caught: that call is the last one, and \<^const>\<open>scrape_multiple\<close> raises
  the same exception. When \<^const>\<open>scrape_multiple\<close> raises, it is for such a call. So when
  the callback returns at every call with phase checking or error, whatever it does at
  the others, the batch runs to its end and returns a dictionary that has the link of
  every task whose fetch returned.
\<close>

theorem callback_raise_caught_or_propagated:
  assumes "completion_order en"
    and "scrape_multiple en ds (Some f) = (out, evs)"
  shows "(\<forall>k < length evs. \<forall>e. raised_at f evs k = Some e \<longrightarrow>
            caught_at (length ds) evs k \<or> (propagated_at evs k \<and> out = Inl e)) \<and>
         (\<forall>e. out = Inl e \<longrightarrow>
            evs \<noteq> [] \<and> raised_at f evs (length evs - 1) = Some e \<and>
            propagated_at evs (length evs - 1)) \<and>
         (returns_on_checking_and_error f \<longrightarrow>
            (\<exists>res. out = Inr res \<and>
               (\<forall>i < length ds. \<forall>u c.
                  scrape_single (task_world en i) (ds ! i) = Inr (u, c) \<longrightarrow>
                  u \<in> fst ` set res)))"
proof -
  have h: "raises_handled f (length ds) evs (case out of Inl e \<Rightarrow> Some e | Inr res \<Rightarrow> None)"
    by (rule scrape_multiple_handled [OF assms(2)])
  have a: "\<forall>k < length evs. \<forall>e. raised_at f evs k = Some e \<longrightarrow>
            caught_at (length ds) evs k \<or> (propagated_at evs k \<and> out = Inl e)"
  proof (intro allI impI)
    fix k e
    assume "k < length evs" and "raised_at f evs k = Some e"
    with h have "caught_at (length ds) evs k \<or>
        (propagated_at evs k \<and> (case out of Inl e \<Rightarrow> Some e | Inr res \<Rightarrow> None) = Some e)"
      by (simp add: raises_handled_def)
    then show "caught_at (length ds) evs k \<or> (propagated_at evs k \<and> out = Inl e)"
      by (cases out) auto
  qed
  have b: "\<forall>e. out = Inl e \<longrightarrow>
            evs \<noteq> [] \<and> raised_at f evs (length evs - 1) = Some e \<and>
            propagated_at evs (length evs - 1)"
    using h by (simp add: raises_handled_def)
  have c: "returns_on_checking_and_error f \<longrightarrow>
            (\<exists>res. out = Inr res \<and>
               (\<forall>i < length ds. \<forall>u c.
                  scrape_single (task_world en i) (ds ! i) = Inr (u, c) \<longrightarrow>
                  u \<in> fst ` set res))"
    using quiet_callback_returns [OF assms(1), of f ds] assms(2) by simp
  from a b c show ?thesis by blast
qed

theorem callback_raise_caught_or_propagated_witness:
  "scrape_multiple (uniform_env unreachable_world) [task ''http://a.test/'' ''A'']
      (Some (\<lambda>h (label, status, n, m).
               if status = ''failed'' \<or> status = ''success'' then Some OtherException
               else None)) =
     (Inr [(''http://a.test/'', ''A'')],
      [(''http://a.test/'', ''failed'', 1, 1), (''http://a.test/'', ''error'', 2, 1)]) \<and>
   caught_at 1 [(''http://a.test/'', ''failed'', 1, 1), (''http://a.test/'', ''error'', 2, 1)] 0"
proof -
  let ?f = "\<lambda>(h :: event list) (label :: string, status :: string, n :: nat, m :: nat).
               if status = ''failed'' \<or> status = ''success'' then Some OtherException
               else None"
  let ?evs = "[(''http://a.test/'', ''failed'', 1 :: nat, 1 :: nat),
               (''http://a.test/'', ''error'', 2, 1)]"
  have r: "scrape_multiple (uniform_env unreachable_world) [task ''http://a.test/'' ''A'']
             (Some ?f) = (Inr [(''http://a.test/'', ''A'')], ?evs)"
    by (simp add: run_defs unreachable_world_def task_def)
  have x: "raised_at ?f ?evs 0 = Some OtherException"
    by (simp add: raised_at_def)
  have "\<not> propagated_at ?evs 0"
    by (simp add: propagated_at_def)
  with callback_raise_caught_or_propagated [OF completion_order_uniform r] x
  have "caught_at 1 ?evs 0"
    by fastforce
  with r show ?thesis by simp
qed

text \<open>
  C8 as stated fails: a callback that raises at every call stops the batch. The first
  completed task is stored and reported, the raise is caught, the handler's own call
  raises, and \<^const>\<open>scrape_multiple\<close> raises with the second task not processed.
\<close>

theorem raising_callback_stops_batch_counterexample:
  "scrape_multiple (uniform_env unreachable_world)
      [task ''http://a.test/'' ''A'', task ''http://b.test/'' ''B'']
      (Some (\<lambda>h ev. Some OtherException)) =
     (Inl OtherException,
      [(''http://b.test/'', ''failed'', 1, 2), (''http://b.test/'', ''error'', 2, 2)])"
  by (simp add: run_defs unreachable_world_def task_def)

text \<open>
  C1, as the code has it. For a batch of well-formed tasks, whatever the fetches do, the
  dictionary that \<^const>\<open>scrape_multiple\<close> returns has exactly one entry for every
  distinct link of the input: its keys are the links, no key is repeated, and its length
  is the number of distinct links. It is returned whenever the callback is absent or
  returns. The link of a task whose fetch failed is a key like any other; its entry is
  the title of the task, truncated like any other text, when no other task has the same
  link, and so the title itself when that has at most 2000 characters. When every fetch
  fails, every entry is the truncated title of a task with that link.
\<close>

theorem one_entry_per_distinct_link:
  assumes "\<forall>d \<in> set ds. well_formed d"
    and "completion_order en"
  shows "(never_raises cb \<longrightarrow> (\<exists>res. fst (scrape_multiple en ds cb) = Inr res)) \<and>
         (\<forall>res. fst (scrape_multiple en ds cb) = Inr res \<longrightarrow>
            distinct (map fst res) \<and>
            fst ` set res = {l. \<exists>d \<in> set ds. d ''link'' = Some l} \<and>
            length res = card {l. \<exists>d \<in> set ds. d ''link'' = Some l} \<and>
            (\<forall>i < length ds. \<forall>l t.
               (ds ! i) ''link'' = Some l \<and> (ds ! i) ''title'' = Some t \<and>
               \<not> fetch_succeeds (task_world en i) l \<longrightarrow>
               l \<in> fst ` set res \<and>
               ((\<forall>j < length ds. j \<noteq> i \<longrightarrow> (ds ! j) ''link'' \<noteq> Some l) \<longrightarrow>
                  map_of res l = Some (truncate_content t) \<and>
                  (length t \<le> 2000 \<longrightarrow> map_of res l = Some t))) \<and>
            ((\<forall>i < length ds. \<forall>l. (ds ! i) ''link'' = Some l \<longrightarrow>
                 \<not> fetch_succeeds (task_world en i) l) \<longrightarrow>
             (\<forall>(u, v) \<in> set res. \<exists>i < length ds. \<exists>t.
                 (ds ! i) ''link'' = Some u \<and> (ds ! i) ''title'' = Some t \<and>
                 v = truncate_content t)))"
proof (intro conjI impI allI)
  assume "never_raises cb"
  then show "\<exists>res. fst (scrape_multiple en ds cb) = Inr res"
    by (simp add: scrape_multiple_returns)
next
  fix res
  assume r: "fst (scrape_multiple en ds cb) = Inr res"
  let ?futs = "as_completed en (submit_all en ds)"
  have res: "res = fold store_future ?futs []"
    using r by (rule scrape_multiple_results)
  show dist: "distinct (map fst res)"
    unfolding res by (rule distinct_fold_store) simp
  have "fst ` set res = {u. \<exists>d c. (d, Inr (u, c)) \<in> set ?futs}"
    unfolding res by (simp add: keys_fold_store)
  also have "\<dots> = {u. \<exists>d c. (d, Inr (u, c)) \<in> set (submit_all en ds)}"
    by (simp add: set_as_completed [OF assms(2)])
  also have "\<dots> = {l. \<exists>d \<in> set ds. d ''link'' = Some l}"
    by (rule result_urls_well_formed [OF assms(1)])
  finally show keys: "fst ` set res = {l. \<exists>d \<in> set ds. d ''link'' = Some l}" .
  have "length res = card (set (map fst res))"
    using dist by (simp add: distinct_card del: set_map)
  then show "length res = card {l. \<exists>d \<in> set ds. d ''link'' = Some l}"
    using keys by simp
next
  fix res i l t
  assume r: "fst (scrape_multiple en ds cb) = Inr res"
    and i: "i < length ds"
    and a: "(ds ! i) ''link'' = Some l \<and> (ds ! i) ''title'' = Some t \<and>
            \<not> fetch_succeeds (task_world en i) l"
  then have s: "scrape_single (task_world en i) (ds ! i) = Inr (l, t)"
    by (simp add: scrape_single_failed)
  show "l \<in> fst ` set res"
    by (rule has_entry [OF assms(2) r i s])
  assume u: "\<forall>j < length ds. j \<noteq> i \<longrightarrow> (ds ! j) ''link'' \<noteq> Some l"
  show m: "map_of res l = Some (truncate_content t)"
    by (rule entry_of_unique_link [OF assms(2) i s u r])
  assume "length t \<le> 2000"
  with m show "map_of res l = Some t"
    by (simp add: truncate_content_def max_chars_def)
next
  fix res
  assume r: "fst (scrape_multiple en ds cb) = Inr res"
    and f: "\<forall>i < length ds. \<forall>l. (ds ! i) ''link'' = Some l \<longrightarrow>
              \<not> fetch_succeeds (task_world en i) l"
  show "\<forall>(u, v) \<in> set res. \<exists>i < length ds. \<exists>t.
          (ds ! i) ''link'' = Some u \<and> (ds ! i) ''title'' = Some t \<and> v = truncate_content t"
    using entries_when_all_fail [OF assms(1,2) f r] by blast
qed

theorem one_entry_per_distinct_link_witness:
  "fst (scrape_multiple (uniform_env unreachable_world)
          [task ''http://a.test/'' ''A'', task ''http://b.test/'' ''B'',
           task ''http://a.test/'' ''A''] None)
     = Inr [(''http://a.test/'', ''A''), (''http://b.test/'', ''B'')] \<and>
   card {l. \<exists>d \<in> set [task ''http://a.test/'' ''A'', task ''http://b.test/'' ''B'',
                          task ''http://a.test/'' ''A'']. d ''link'' = Some l} = 2"
proof -
  let ?ds = "[task ''http://a.test/'' ''A'', task ''http://b.test/'' ''B'',
              task ''http://a.test/'' ''A'']"
  have w: "\<forall>d \<in> set ?ds. well_formed d"
    by (simp add: well_formed_def task_def)
  have r: "fst (scrape_multiple (uniform_env unreachable_world) ?ds None)
     = Inr [(''http://a.test/'', ''A''), (''http://b.test/'', ''B'')]"
    by (simp add: run_defs unreachable_world_def task_def)
  from one_entry_per_distinct_link [OF w completion_order_uniform, of None unreachable_world]
    r
  have "length [(''http://a.test/'', ''A''), (''http://b.test/'', ''B'')] =
        card {l. \<exists>d \<in> set ?ds. d ''link'' = Some l}"
    by blast
  with r show ?thesis by simp
qed

text \<open>
  C1 as stated fails where two tasks share a link: both fetches fail, the dictionary has
  its one entry for the link, and the entry is the title of the task that completed
  last, not the title of the other task.
\<close>

theorem shared_link_entry_counterexample:
  "\<not> fetch_succeeds unreachable_world ''http://a.test/'' \<and>
   fst (scrape_multiple (uniform_env unreachable_world)
          [task ''http://a.test/'' ''First'', task ''http://a.test/'' ''Second''] None)
     = Inr [(''http://a.test/'', ''First'')] \<and>
   task ''http://a.test/'' ''Second'' ''title'' = Some ''Second'' \<and>
   ''First'' \<noteq> ''Second''"
  by (simp add: fetch_succeeds_def run_defs unreachable_world_def task_def)

end
